theory Spec2Isabelle
  imports Complex_Main "HOL-Library.Char_ord" "HOL-Library.List_Lexorder"
begin

section \<open>Python primitives used by the sequence encoder\<close>

text \<open>
  Strings are character lists and offsets are Python integers. A slice \<open>xs[i:j]\<close>
  never raises: a negative bound counts from the end, and both bounds are clamped
  to the length of the sequence.
\<close>

definition py_slice :: "'a list \<Rightarrow> int \<Rightarrow> int \<Rightarrow> 'a list" where
  "py_slice xs i j =
     (let n = int (length xs);
          lo = (if i < 0 then max (i + n) 0 else min i n);
          hi = (if j < 0 then max (j + n) 0 else min j n)
      in take (nat (hi - lo)) (drop (nat lo) xs))"

text \<open>
  The exceptions that the modelled functions can raise. \<open>FinetuneError\<close> carries the
  annotation that its message prints.
\<close>

datatype 'a error = ValueError | KeyError | IndexError | FinetuneError 'a

section \<open>Annotations\<close>

text \<open>
  An annotation dictionary with the keys \<open>start\<close>, \<open>end\<close>, \<open>label\<close> and \<open>text\<close>.
  The type of the label changes along \<open>indico_to_finetune_sequence\<close>: a single label
  on input, a set of labels during overlap resolution, a list afterwards.
\<close>

record 'l annotation =
  ann_start :: int
  ann_end :: int
  ann_label :: 'l
  ann_text :: string

definition sort_by_start :: "'l annotation list \<Rightarrow> 'l annotation list" where
  "sort_by_start annotations = sort_key ann_start annotations"

definition overlap :: "'l annotation \<Rightarrow> 'l annotation \<Rightarrow> bool" where
  "overlap current_annotation annotation \<longleftrightarrow>
     (ann_start current_annotation < ann_end annotation \<and>
        ann_end annotation \<le> ann_end current_annotation) \<or>
     (ann_start annotation < ann_end current_annotation \<and>
        ann_end current_annotation \<le> ann_end annotation)"

definition overlap_handler ::
  "'l set annotation \<Rightarrow> 'l set annotation \<Rightarrow> string \<Rightarrow> 'l set annotation list" where
  "overlap_handler current_annotation annotation text =
     (let (first, second) =
            (if ann_start current_annotation \<le> ann_start annotation
             then (current_annotation, annotation)
             else (annotation, current_annotation));
          final_delimiter = min (ann_end first) (ann_end second);
          final_label = (if ann_end second > ann_end first then ann_label second
                         else ann_label first);
          end_pos = max (ann_end first) (ann_end second);
          first_chunk = \<lparr>ann_start = ann_start first, ann_end = ann_start second,
                         ann_label = ann_label first,
                         ann_text = py_slice text (ann_start first) (ann_start second)\<rparr>;
          second_chunk = \<lparr>ann_start = ann_start second, ann_end = final_delimiter,
                          ann_label = ann_label first \<union> ann_label second,
                          ann_text = py_slice text (ann_start second) final_delimiter\<rparr>;
          third_chunk = \<lparr>ann_start = final_delimiter, ann_end = end_pos,
                         ann_label = final_label,
                         ann_text = py_slice text final_delimiter end_pos\<rparr>
      in [first_chunk, second_chunk, third_chunk])"

section \<open>The interval merge engine\<close>

text \<open>
  The \<open>for\<close> loop over the merged annotations, in start order, either finds the
  first merged annotation that overlaps the current one (\<open>Split_with\<close>), or ends by the
  first \<open>break\<close> or by the \<open>else\<close> branch, which both append the current annotation.
\<close>

datatype 'a scan_result = Append_current | Split_with 'a

fun scan_merged ::
  "'l annotation \<Rightarrow> 'l annotation list \<Rightarrow> 'l annotation scan_result" where
  "scan_merged current_annotation [] = Append_current"
| "scan_merged current_annotation (annotation # rest) =
     (if ann_start annotation > ann_end current_annotation then Append_current
      else if overlap current_annotation annotation then Split_with annotation
      else scan_merged current_annotation rest)"

text \<open>
  The \<open>while len(queue)\<close> loop. The result is \<open>None\<close> when the loop runs forever.
\<close>

partial_function (option) resolve_queue ::
  "string \<Rightarrow> 'l set annotation list \<Rightarrow> 'l set annotation list \<Rightarrow>
   'l set annotation list option" where
  "resolve_queue text queue merged_annotations =
     (case queue of
        [] \<Rightarrow> Some merged_annotations
      | current_annotation # rest \<Rightarrow>
          if ann_start current_annotation = ann_end current_annotation
          then resolve_queue text rest merged_annotations
          else (case scan_merged current_annotation (sort_by_start merged_annotations) of
                  Append_current \<Rightarrow>
                    resolve_queue text rest (merged_annotations @ [current_annotation])
                | Split_with annotation \<Rightarrow>
                    resolve_queue text
                      (overlap_handler current_annotation annotation text @ rest)
                      (remove1 annotation merged_annotations)))"

declare resolve_queue.simps [code]

section \<open>The gap filler\<close>

text \<open>
  The loop that inserts a none-labelled annotation before every merged annotation
  that starts after the running index \<open>current_idx\<close>.
\<close>

fun add_none_labels ::
  "'l \<Rightarrow> string \<Rightarrow> int \<Rightarrow> 'l list annotation list \<Rightarrow> 'l list annotation list" where
  "add_none_labels none_value text current_idx [] = []"
| "add_none_labels none_value text current_idx (annotation # rest) =
     (if ann_start annotation > current_idx
      then [\<lparr>ann_start = current_idx, ann_end = ann_start annotation,
              ann_label = [none_value],
              ann_text = py_slice text current_idx (ann_start annotation)\<rparr>]
      else [])
     @ annotation # add_none_labels none_value text (ann_end annotation) rest"

text \<open>Python's \<open>max\<close> of a list raises \<open>ValueError\<close> on the empty list.\<close>

definition py_max :: "int list \<Rightarrow> 'e error + int" where
  "py_max xs = (case xs of [] \<Rightarrow> Inl ValueError | x # rest \<Rightarrow> Inr (fold max rest x))"

definition add_rest_span ::
  "'l \<Rightarrow> string \<Rightarrow> 'l list annotation list \<Rightarrow> 'e error + 'l list annotation list" where
  "add_rest_span none_value text all_annotations =
     (case py_max (map ann_end all_annotations) of
        Inl e \<Rightarrow> Inl e
      | Inr end_idx \<Rightarrow>
          Inr (if end_idx \<noteq> int (length text)
               then all_annotations @
                    [\<lparr>ann_start = end_idx, ann_end = int (length text),
                      ann_label = [none_value],
                      ann_text = py_slice text end_idx (int (length text))\<rparr>]
               else all_annotations))"

text \<open>
  The flattening loop of the single-label mode. For each annotation in turn it raises
  \<open>FinetuneError\<close> when the annotation has more than one label, and otherwise
  evaluates \<open>annotation[0]\<close>: the annotation is a dictionary with the keys
  \<open>start\<close>, \<open>end\<close>, \<open>label\<close> and \<open>text\<close>, so the subscript \<open>0\<close> raises
  \<open>KeyError\<close>. Only on an empty list does the loop end normally.
\<close>

fun flatten_labels ::
  "'l list annotation list \<Rightarrow> 'l list annotation error + 'l list annotation list" where
  "flatten_labels [] = Inr []"
| "flatten_labels (annotation # rest) =
     (if length (ann_label annotation) > 1 then Inl (FinetuneError annotation)
      else Inl KeyError)"

section \<open>indico_to_finetune_sequence\<close>

definition with_label :: "('a \<Rightarrow> 'b) \<Rightarrow> 'a annotation \<Rightarrow> 'b annotation" where
  "with_label f annotation =
     \<lparr>ann_start = ann_start annotation, ann_end = ann_end annotation,
      ann_label = f (ann_label annotation), ann_text = ann_text annotation\<rparr>"

text \<open>
  The body of the loop over the documents, up to the list \<open>all_annotations\<close> that
  partitions the document. The token tables read from the encoder at the head of the
  body are not used afterwards, and the encoder is taken to return one table per
  document. The order in which \<open>list\<close> enumerates a Python set is not specified: the
  enumeration is the parameter \<open>list_of\<close>. The result is \<open>None\<close> when the worklist
  loop does not end and \<open>Some (Inl e)\<close> when the exception \<open>e\<close> is raised.
\<close>

definition document_annotations ::
  "('l set \<Rightarrow> 'l list) \<Rightarrow> 'l \<Rightarrow> string \<Rightarrow> 'l annotation list \<Rightarrow>
   ('l list annotation error + 'l list annotation list) option" where
  "document_annotations list_of none_value text label_seq =
     (let label_seq = sort_key ann_start label_seq;
          queue = map (with_label (\<lambda>l. {l})) (sort_key ann_start label_seq)
      in case resolve_queue text queue [] of
           None \<Rightarrow> None
         | Some merged_annotations \<Rightarrow>
             Some
              (let merged_annotations =
                     sort_by_start (map (with_label list_of) merged_annotations)
               in add_rest_span none_value text
                    (add_none_labels none_value text 0 merged_annotations)))"

text \<open>
  The rest of the body: the flattening of the labels in single-label mode, and the
  substrings and the label tuples of the document.
\<close>

definition convert_document ::
  "('l set \<Rightarrow> 'l list) \<Rightarrow> bool \<Rightarrow> 'l \<Rightarrow> string \<Rightarrow> 'l annotation list \<Rightarrow>
   ('l list annotation error + string list \<times> 'l list list) option" where
  "convert_document list_of multi_label none_value text label_seq =
     (case document_annotations list_of none_value text label_seq of
        None \<Rightarrow> None
      | Some (Inl e) \<Rightarrow> Some (Inl e)
      | Some (Inr all_annotations) \<Rightarrow>
          Some (case (if \<not> multi_label then flatten_labels all_annotations
                      else Inr all_annotations) of
                  Inl e \<Rightarrow> Inl e
                | Inr all_annotations \<Rightarrow>
                    Inr (map ann_text all_annotations, map ann_label all_annotations)))"

text \<open>
  The loop over the documents stops at the first document whose conversion raises or
  does not end.
\<close>

fun convert_documents ::
  "('d \<Rightarrow> ('e + 'r) option) \<Rightarrow> 'd list \<Rightarrow> ('e + 'r list) option" where
  "convert_documents f [] = Some (Inr [])"
| "convert_documents f (d # ds) =
     (case f d of
        None \<Rightarrow> None
      | Some (Inl e) \<Rightarrow> Some (Inl e)
      | Some (Inr r) \<Rightarrow>
          (case convert_documents f ds of
             None \<Rightarrow> None
           | Some (Inl e) \<Rightarrow> Some (Inl e)
           | Some (Inr rs) \<Rightarrow> Some (Inr (r # rs))))"

text \<open>
  The whole function returns the substrings and the labels of every document, and
  three lists that hold an empty list per document.
\<close>

definition indico_to_finetune_sequence ::
  "('l set \<Rightarrow> 'l list) \<Rightarrow> string list \<Rightarrow> 'l annotation list list option \<Rightarrow> bool \<Rightarrow> 'l \<Rightarrow>
   ('l list annotation error +
    string list list \<times> 'l list list list \<times> unit list list \<times> unit list list \<times> unit list list)
   option" where
  "indico_to_finetune_sequence list_of texts labels multi_label none_value =
     (let labels = (case labels of None \<Rightarrow> replicate (length texts) [] | Some ls \<Rightarrow> ls)
      in case convert_documents
                (\<lambda>(text, label_seq).
                   convert_document list_of multi_label none_value text label_seq)
                (zip texts labels) of
           None \<Rightarrow> None
         | Some (Inl e) \<Rightarrow> Some (Inl e)
         | Some (Inr docs) \<Rightarrow>
             Some (Inr (map fst docs, map snd docs,
                        map (\<lambda>_. []) docs, map (\<lambda>_. []) docs, map (\<lambda>_. []) docs)))"

section \<open>The split rule in the words of the specification\<close>

text \<open>
  The three pieces that the specification gives for two overlapping spans, \<open>first\<close>
  the one with the smaller start: \<open>cut\<close> is the smaller end, \<open>end_pos\<close> the larger
  end, and the label of the last piece is the one of the span that ends last.
\<close>

definition split_pieces ::
  "'l set annotation \<Rightarrow> 'l set annotation \<Rightarrow> string \<Rightarrow> 'l set annotation list" where
  "split_pieces first second text =
     (let cut = min (ann_end first) (ann_end second);
          end_pos = max (ann_end first) (ann_end second);
          winner = (if ann_end second > ann_end first then ann_label second
                    else ann_label first)
      in [\<lparr>ann_start = ann_start first, ann_end = ann_start second,
            ann_label = ann_label first,
            ann_text = py_slice text (ann_start first) (ann_start second)\<rparr>,
          \<lparr>ann_start = ann_start second, ann_end = cut,
            ann_label = ann_label first \<union> ann_label second,
            ann_text = py_slice text (ann_start second) cut\<rparr>,
          \<lparr>ann_start = cut, ann_end = end_pos, ann_label = winner,
            ann_text = py_slice text cut end_pos\<rparr>])"

section \<open>The association linker\<close>

text \<open>
  A label of the substring format is a single label or a tuple of labels.
\<close>

datatype 'l raw_label = Single 'l | Multi "'l list"

text \<open>
  A candidate tuple \<open>(bpe_idx, candidate_idx, candidate_label, candidate_prob)\<close>.
\<close>

type_synonym ('b, 'l, 'p) candidate = "'b \<times> 'b \<times> 'l \<times> 'p"

text \<open>
  The first pass of \<open>assign_associations\<close> over one document: every token index of
  the association of a substring whose label is not the none-value is mapped to the
  running count \<open>active_label_idx\<close> of such substrings. A label equals the none-value
  only when it is that single label, never when it is a tuple.
\<close>

fun build_idx_lookup ::
  "'l \<Rightarrow> ('l raw_label \<times> ('b, 'l, 'p) candidate list) list \<Rightarrow> int \<Rightarrow> ('b \<rightharpoonup> int) \<Rightarrow>
   ('b \<rightharpoonup> int)" where
  "build_idx_lookup none_value [] active_label_idx idx_lookup = idx_lookup"
| "build_idx_lookup none_value ((label, association) # rest) active_label_idx idx_lookup =
     (if label = Single none_value
      then build_idx_lookup none_value rest active_label_idx idx_lookup
      else build_idx_lookup none_value rest (active_label_idx + 1)
             (fold (\<lambda>(bpe_idx, _, _, _) m. m(bpe_idx \<mapsto> active_label_idx + 1))
                association idx_lookup))"

text \<open>
  The second pass, over all tuples of all associations of the document. A tuple is
  skipped when its label is the none-value or its target is not in the lookup table;
  otherwise \<open>idx_lookup[bpe_idx]\<close> is read, which raises \<open>KeyError\<close> for an unknown
  token. The list stored under a key is created with its first element, so it is kept
  as that element and the elements appended later.
\<close>

fun collect_candidates ::
  "'l \<Rightarrow> ('b \<rightharpoonup> int) \<Rightarrow> ('b, 'l, 'p) candidate list \<Rightarrow>
   (int \<rightharpoonup> (int \<times> 'l \<times> 'p) \<times> (int \<times> 'l \<times> 'p) list) \<Rightarrow>
   'e error + (int \<rightharpoonup> (int \<times> 'l \<times> 'p) \<times> (int \<times> 'l \<times> 'p) list)" where
  "collect_candidates none_value idx_lookup [] candidates = Inr candidates"
| "collect_candidates none_value idx_lookup
     ((bpe_idx, candidate_idx, candidate_label, candidate_prob) # rest) candidates =
     (case (if candidate_label = none_value then None else idx_lookup candidate_idx) of
        None \<Rightarrow> collect_candidates none_value idx_lookup rest candidates
      | Some target \<Rightarrow>
          (case idx_lookup bpe_idx of
             None \<Rightarrow> Inl KeyError
           | Some k \<Rightarrow>
               collect_candidates none_value idx_lookup rest
                 (candidates(k \<mapsto>
                    (case candidates k of
                       None \<Rightarrow> ((target, candidate_label, candidate_prob), [])
                     | Some (c, cs) \<Rightarrow>
                         (c, cs @ [(target, candidate_label, candidate_prob)]))))))"

text \<open>
  Python's \<open>max(v, key=...)\<close> on a non-empty list: the running best element is
  replaced only by an element with a strictly larger key, so the first of several
  maximal elements is returned.
\<close>

fun py_max_key :: "('a \<Rightarrow> 'k::linorder) \<Rightarrow> 'a \<Rightarrow> 'a list \<Rightarrow> 'a" where
  "py_max_key key best [] = best"
| "py_max_key key best (x # xs) =
     py_max_key key (if key best < key x then x else best) xs"

definition assign_document ::
  "'l \<Rightarrow> 'l raw_label list \<Rightarrow> ('b, 'l, 'p::linorder) candidate list list \<Rightarrow>
   'e error + (int \<rightharpoonup> int \<times> 'l \<times> 'p)" where
  "assign_document none_value doc_label doc_association =
     (let idx_lookup = build_idx_lookup none_value (zip doc_label doc_association) (- 1)
                         Map.empty
      in case collect_candidates none_value idx_lookup (concat doc_association) Map.empty of
           Inl e \<Rightarrow> Inl e
         | Inr candidates \<Rightarrow>
             Inr (\<lambda>k. case candidates k of
                        None \<Rightarrow> None
                      | Some (c, cs) \<Rightarrow> Some (py_max_key (\<lambda>x. snd (snd x)) c cs)))"

text \<open>
  The documents are handled one after the other; the first \<open>KeyError\<close> ends the
  call. The test \<open>doc_label == none_value\<close> compares the list of the labels of a
  document with the none-value and is never true.
\<close>

fun sequence_results :: "('e + 'r) list \<Rightarrow> 'e + 'r list" where
  "sequence_results [] = Inr []"
| "sequence_results (Inl e # rest) = Inl e"
| "sequence_results (Inr r # rest) =
     (case sequence_results rest of Inl e \<Rightarrow> Inl e | Inr rs \<Rightarrow> Inr (r # rs))"

definition assign_associations ::
  "'l raw_label list list \<Rightarrow> ('b, 'l, 'p::linorder) candidate list list list \<Rightarrow> 'l \<Rightarrow>
   'e error + (int \<rightharpoonup> int \<times> 'l \<times> 'p) list" where
  "assign_associations labels associations none_value =
     sequence_results
       (map (\<lambda>(doc_label, doc_association).
               assign_document none_value doc_label doc_association)
          (zip labels associations))"

section \<open>The span reconstructor\<close>

text \<open>
  \<open>str.strip()\<close> removes the white space at both ends. A character of a HOL string is
  a code point below 256; among these Python counts as white space the code points
  9 to 13, 28 to 32, 133 and 160.
\<close>

definition is_space :: "char \<Rightarrow> bool" where
  "is_space c \<longleftrightarrow>
     (let n = (of_char c :: nat)
      in (9 \<le> n \<and> n \<le> 13) \<or> (28 \<le> n \<and> n \<le> 32) \<or> n = 133 \<or> n = 160)"

definition py_strip :: "string \<Rightarrow> string" where
  "py_strip s = rev (dropWhile is_space (rev (dropWhile is_space s)))"

text \<open>
  \<open>s.find(sub, start)\<close>: the lowest index at or after \<open>start\<close> where \<open>sub\<close> occurs
  in \<open>s\<close>, and \<open>-1\<close> when there is none. A negative \<open>start\<close> counts from the end
  of \<open>s\<close>.
\<close>

fun find_at :: "'a list \<Rightarrow> 'a list \<Rightarrow> nat \<Rightarrow> int" where
  "find_at sub [] i = (if sub = [] then int i else - 1)"
| "find_at sub (c # cs) i =
     (if take (length sub) (c # cs) = sub then int i else find_at sub cs (Suc i))"

definition py_find :: "'a list \<Rightarrow> 'a list \<Rightarrow> int \<Rightarrow> int" where
  "py_find s sub start =
     (let n = int (length s);
          lo = (if start < 0 then max (start + n) 0 else start)
      in if lo > n then - 1 else find_at sub (drop (nat lo) s) (nat lo))"

text \<open>A list subscript: a negative index counts from the end.\<close>

definition py_index :: "'a list \<Rightarrow> int \<Rightarrow> 'e error + 'a" where
  "py_index xs i =
     (let n = int (length xs)
      in if 0 \<le> i \<and> i < n then Inr (xs ! nat i)
         else if - n \<le> i \<and> i < 0 then Inr (xs ! nat (i + n))
         else Inl IndexError)"

text \<open>
  An annotation of the indico format, as the reconstructor emits it; the keys
  \<open>associations\<close> and \<open>confidence\<close> may be absent.
\<close>

record ('l, 'p, 'c) indico_annotation =
  out_start :: int
  out_end :: int
  out_label :: 'l
  out_text :: string
  out_associations :: "(int \<times> 'l \<times> 'p) option"
  out_confidence :: "'c option"

text \<open>
  The variables that the loop over the substrings of a document updates, and the
  texts of the warnings issued so far.
\<close>

record ('l, 'p, 'c) decoder_state =
  doc_annotations :: "('l, 'p, 'c) indico_annotation list"
  annotation_ranges :: "(int \<times> int \<times> 'l) set"
  start_idx :: nat
  end_idx :: nat
  raw_annotation_start :: int
  warned :: "string list"

text \<open>The two \<open>while\<close> loops that move the token cursors forward.\<close>

function advance_start_idx :: "int list \<Rightarrow> int \<Rightarrow> nat \<Rightarrow> nat" where
  "advance_start_idx spacy_token_starts annotation_start i =
     (if i < length spacy_token_starts \<and> annotation_start \<ge> spacy_token_starts ! i
      then advance_start_idx spacy_token_starts annotation_start (Suc i)
      else i)"
  by pat_completeness auto
termination
  by (relation "measure (\<lambda>(starts, a, i). length starts - i)") auto

function advance_end_idx :: "int list \<Rightarrow> int \<Rightarrow> nat \<Rightarrow> nat" where
  "advance_end_idx spacy_token_ends annotation_end i =
     (if int i < int (length spacy_token_ends) - 1 \<and> annotation_end > spacy_token_ends ! i
      then advance_end_idx spacy_token_ends annotation_end (Suc i)
      else i)"
  by pat_completeness auto
termination
  by (relation "measure (\<lambda>(ends, a, i). length ends - i)") auto

declare advance_start_idx.simps [simp del] advance_end_idx.simps [simp del]

text \<open>
  The snapping of a located span to whole tokens: the start moves back to the start of
  the last token that starts at or before it, from the cursor \<open>start_idx\<close> on, and the
  end moves forward to the end of the first token that ends at or after it, from the
  cursor \<open>end_idx\<close> on.
\<close>

definition snap_to_tokens ::
  "int list \<Rightarrow> int list \<Rightarrow> int \<Rightarrow> int \<Rightarrow> ('l, 'p, 'c) decoder_state \<Rightarrow>
   'e error + int \<times> int \<times> ('l, 'p, 'c) decoder_state" where
  "snap_to_tokens spacy_token_starts spacy_token_ends found raw_annotation_end st =
     (let i = advance_start_idx spacy_token_starts found (start_idx st)
      in case py_index spacy_token_starts (int i - 1) of
           Inl e \<Rightarrow> Inl e
         | Inr annotation_start \<Rightarrow>
             (let j = advance_end_idx spacy_token_ends raw_annotation_end (end_idx st)
              in case py_index spacy_token_ends (int j) of
                   Inl e \<Rightarrow> Inl e
                 | Inr annotation_end \<Rightarrow>
                     Inr (annotation_start, annotation_end,
                          st\<lparr>start_idx := i, end_idx := j\<rparr>)))"

text \<open>
  The construction of the annotation of a label that is not the none-value, and its
  addition to the annotations of the document unless its start, end and label are
  those of an annotation already there.
\<close>

definition emit_annotation ::
  "string \<Rightarrow> 'l \<Rightarrow> (int \<rightharpoonup> int \<times> 'l \<times> 'p) option \<Rightarrow> 'c option \<Rightarrow> 'l \<Rightarrow> int \<Rightarrow> int \<Rightarrow>
   ('l, 'p, 'c) decoder_state \<Rightarrow> ('l, 'p, 'c) decoder_state" where
  "emit_annotation raw_text none_value associations_seq confidences label
     annotation_start annotation_end st =
     (if label \<noteq> none_value
      then
        let annotation =
              \<lparr>out_start = annotation_start, out_end = annotation_end,
               out_label = label,
               out_text = py_slice raw_text annotation_start annotation_end,
               out_associations =
                 (case associations_seq of
                    None \<Rightarrow> None
                  | Some m \<Rightarrow> m (int (length (doc_annotations st)))),
               out_confidence = confidences\<rparr>
        in if (annotation_start, annotation_end, label) \<notin> annotation_ranges st
           then st\<lparr>annotation_ranges :=
                      insert (annotation_start, annotation_end, label)
                        (annotation_ranges st),
                    doc_annotations := doc_annotations st @ [annotation]\<rparr>
           else st
      else st)"

text \<open>
  The body of the loop over the labels of one substring, for one label.
\<close>

definition process_label ::
  "string \<Rightarrow> int list \<Rightarrow> int list \<Rightarrow> bool \<Rightarrow> 'l \<Rightarrow> (int \<rightharpoonup> int \<times> 'l \<times> 'p) option \<Rightarrow>
   bool \<Rightarrow> string \<Rightarrow> 'c option \<Rightarrow> 'l \<Rightarrow> ('l, 'p, 'c) decoder_state \<Rightarrow>
   'e error + ('l, 'p, 'c) decoder_state" where
  "process_label raw_text spacy_token_starts spacy_token_ends subtoken_predictions
     none_value associations_seq multi_label sub_str confidences label st =
     (let stripped_text = py_strip sub_str;
          found = py_find raw_text stripped_text (raw_annotation_start st);
          raw_annotation_end = found + int (length stripped_text);
          st = st\<lparr>raw_annotation_start := found\<rparr>
      in if found = - 1 then Inr (st\<lparr>warned := warned st @ [stripped_text]\<rparr>)
         else
           let st = (if \<not> subtoken_predictions \<and> multi_label
                     then st\<lparr>start_idx := 0, end_idx := 0\<rparr> else st)
           in case (if \<not> subtoken_predictions \<and> label \<noteq> none_value
                    then snap_to_tokens spacy_token_starts spacy_token_ends found
                           raw_annotation_end st
                    else Inr (found, raw_annotation_end, st)) of
                Inl e \<Rightarrow> Inl e
              | Inr (annotation_start, annotation_end, st) \<Rightarrow>
                  Inr (emit_annotation raw_text none_value associations_seq confidences
                         label annotation_start annotation_end st))"

fun process_labels ::
  "('l \<Rightarrow> ('l, 'p, 'c) decoder_state \<Rightarrow> 'e error + ('l, 'p, 'c) decoder_state) \<Rightarrow>
   'l list \<Rightarrow> ('l, 'p, 'c) decoder_state \<Rightarrow> 'e error + ('l, 'p, 'c) decoder_state" where
  "process_labels step [] st = Inr st"
| "process_labels step (label # label_list) st =
     (case step label st of
        Inl e \<Rightarrow> Inl e
      | Inr st' \<Rightarrow> process_labels step label_list st')"

text \<open>
  The loop over the substrings of a document, each with its label and its
  confidences.
\<close>

fun process_substrings ::
  "string \<Rightarrow> int list \<Rightarrow> int list \<Rightarrow> bool \<Rightarrow> 'l \<Rightarrow> (int \<rightharpoonup> int \<times> 'l \<times> 'p) option \<Rightarrow>
   (string \<times> 'l raw_label \<times> 'c option) list \<Rightarrow> ('l, 'p, 'c) decoder_state \<Rightarrow>
   'e error + ('l, 'p, 'c) decoder_state" where
  "process_substrings raw_text starts ends subtoken_predictions none_value
     associations_seq [] st = Inr st"
| "process_substrings raw_text starts ends subtoken_predictions none_value
     associations_seq ((sub_str, raw_label, confidences) # rest) st =
     (let (multi_label, label_list) =
            (case raw_label of Single l \<Rightarrow> (False, [l]) | Multi ls \<Rightarrow> (True, ls))
      in case process_labels
                (process_label raw_text starts ends subtoken_predictions none_value
                   associations_seq multi_label sub_str confidences)
                label_list st of
           Inl e \<Rightarrow> Inl e
         | Inr st' \<Rightarrow>
             process_substrings raw_text starts ends subtoken_predictions none_value
               associations_seq rest st')"

text \<open>
  The body of the loop over the documents. The word tokens of the raw text come from
  the tokenizer \<open>NLP\<close>, a parameter, as pairs of the offset and the text of a token.
  The result holds the annotations sorted by start and the warnings.
\<close>

definition decode_document ::
  "(string \<Rightarrow> (int \<times> string) list) \<Rightarrow> bool \<Rightarrow> 'l \<Rightarrow> string \<Rightarrow> string list \<Rightarrow>
   'l raw_label list \<Rightarrow> 'c list option \<Rightarrow> (int \<rightharpoonup> int \<times> 'l \<times> 'p) option \<Rightarrow>
   'e error + ('l, 'p, 'c) indico_annotation list \<times> string list" where
  "decode_document NLP subtoken_predictions none_value raw_text doc_seq label_seq prob_seq
     associations_seq =
     (let spacy_tokens = NLP raw_text;
          spacy_token_starts = map fst spacy_tokens;
          spacy_token_ends = map (\<lambda>(idx, token_text). idx + int (length token_text))
                               spacy_tokens;
          confidences = (case prob_seq of
                           None \<Rightarrow> replicate (length doc_seq) None
                         | Some [] \<Rightarrow> replicate (length doc_seq) None
                         | Some ps \<Rightarrow> map Some ps)
      in case process_substrings raw_text spacy_token_starts spacy_token_ends
                subtoken_predictions none_value associations_seq
                (zip doc_seq (zip label_seq confidences))
                \<lparr>doc_annotations = [], annotation_ranges = {}, start_idx = 0, end_idx = 0,
                 raw_annotation_start = 0, warned = []\<rparr> of
           Inl e \<Rightarrow> Inl e
         | Inr st \<Rightarrow> Inr (sort_key out_start (doc_annotations st), warned st))"

text \<open>
  The whole function. The token tables of the encoder are read and not used, as in
  the other direction. The raw texts are returned unchanged, with the annotations of
  every document; the warnings of the documents are kept beside them.
\<close>

definition finetune_to_indico_sequence ::
  "(string \<Rightarrow> (int \<times> string) list) \<Rightarrow> string list \<Rightarrow> string list list \<Rightarrow>
   'l raw_label list list \<Rightarrow> 'c list list option \<Rightarrow> 'l \<Rightarrow> bool \<Rightarrow>
   (int, 'l, 'p::linorder) candidate list list list option \<Rightarrow>
   'e error + (string list \<times> ('l, 'p, 'c) indico_annotation list list) \<times> string list list"
  where
  "finetune_to_indico_sequence NLP raw_texts subseqs_all labels probs none_value
     subtoken_predictions associations =
     (case (case associations of
              None \<Rightarrow> Inr (replicate (length raw_texts) None)
            | Some assoc \<Rightarrow>
                (case assign_associations labels assoc none_value of
                   Inl e \<Rightarrow> Inl e
                 | Inr cleaned \<Rightarrow> Inr (map Some cleaned))) of
        Inl e \<Rightarrow> Inl e
      | Inr assoc_cleaned \<Rightarrow>
          (let prob_seqs = (case probs of
                              None \<Rightarrow> replicate (length raw_texts) None
                            | Some [] \<Rightarrow> replicate (length raw_texts) None
                            | Some ps \<Rightarrow> map Some ps)
           in case sequence_results
                     (map (\<lambda>(raw_text, doc_seq, label_seq, prob_seq, associations_seq).
                             decode_document NLP subtoken_predictions none_value raw_text
                               doc_seq label_seq prob_seq associations_seq)
                        (zip raw_texts (zip subseqs_all (zip labels
                           (zip prob_seqs assoc_cleaned))))) of
                Inl e \<Rightarrow> Inl e
              | Inr docs \<Rightarrow> Inr ((raw_texts, map fst docs), map snd docs)))"

section \<open>The selection rule in the words of the specification\<close>


text \<open>A stored non-empty list and the list it stands for.\<close>

definition stored :: "('a \<times> 'a list) option \<Rightarrow> 'a list" where
  "stored v = (case v of None \<Rightarrow> [] | Some (c, cs) \<Rightarrow> c # cs)"

definition store :: "'a list \<Rightarrow> ('a \<times> 'a list) option" where
  "store xs = (case xs of [] \<Rightarrow> None | c # cs \<Rightarrow> Some (c, cs))"

section \<open>Measures and predicates on spans\<close>

text \<open>
  The length of a span, the total length of a list of spans (the mass that the
  worklist still has to resolve), and the spans that are not degenerate.
\<close>

definition span_length :: "'l annotation \<Rightarrow> int" where
  "span_length a = ann_end a - ann_start a"

definition mass :: "'l annotation list \<Rightarrow> int" where
  "mass xs = sum_list (map span_length xs)"

definition proper :: "'l annotation \<Rightarrow> bool" where
  "proper a \<longleftrightarrow> ann_start a \<noteq> ann_end a"

section \<open>Partitions of a document\<close>

text \<open>
  A span is well placed in a text when it lies within the text, with \<open>start \<le> end\<close>,
  and its \<open>text\<close> field is the slice of the text that it covers. Two spans are
  separate when one ends at or before the start of the other.
\<close>

definition well_placed :: "string \<Rightarrow> 'l annotation \<Rightarrow> bool" where
  "well_placed text a \<longleftrightarrow>
     0 \<le> ann_start a \<and> ann_start a \<le> ann_end a \<and> ann_end a \<le> int (length text) \<and>
     ann_text a = py_slice text (ann_start a) (ann_end a)"

definition separate :: "'l annotation \<Rightarrow> 'l annotation \<Rightarrow> bool" where
  "separate a b \<longleftrightarrow> ann_end a \<le> ann_start b \<or> ann_end b \<le> ann_start a"

text \<open>
  A list of spans tiles the range from \<open>lo\<close> to \<open>hi\<close> of a text when every span is
  proper, starts where the one before it ends, the first at \<open>lo\<close> and the last ending
  at \<open>hi\<close>, and carries the slice of the text that it covers.
\<close>

fun tiling :: "string \<Rightarrow> int \<Rightarrow> 'l annotation list \<Rightarrow> int \<Rightarrow> bool" where
  "tiling text lo [] hi \<longleftrightarrow> lo = hi"
| "tiling text lo (a # rest) hi \<longleftrightarrow>
     ann_start a = lo \<and> lo < ann_end a \<and> ann_text a = py_slice text lo (ann_end a) \<and>
     tiling text (ann_end a) rest hi"

text \<open>
  The invariant of the worklist loop on well-placed input: the merged spans are proper,
  start at different offsets and are pairwise separate, and a proper span is left in
  the queue as long as nothing is merged.
\<close>

definition merge_inv :: "string \<Rightarrow> 'l annotation list \<Rightarrow> 'l annotation list \<Rightarrow> bool" where
  "merge_inv text queue merged \<longleftrightarrow>
     (\<forall>a\<in>set queue. well_placed text a) \<and>
     (\<forall>a\<in>set merged. well_placed text a \<and> proper a) \<and>
     distinct (map ann_start merged) \<and>
     (\<forall>a\<in>set merged. \<forall>b\<in>set merged. ann_start a \<noteq> ann_start b \<longrightarrow> separate a b) \<and>
     (merged \<noteq> [] \<or> (\<exists>a\<in>set queue. proper a))"

section \<open>A span with its end before its start\<close>

text \<open>
  Two pieces that the worklist produces from the span \<open>[0, 10)\<close> and a span that starts
  at 5 and ends at 3, and the states of the loop in which they come back for ever.
\<close>

definition left_piece :: "string \<Rightarrow> string set annotation" where
  "left_piece text = \<lparr>ann_start = 0, ann_end = 5, ann_label = {''X''},
                       ann_text = py_slice text 0 5\<rparr>"

definition reversed_piece :: "string \<Rightarrow> string set annotation" where
  "reversed_piece text = \<lparr>ann_start = 5, ann_end = 3, ann_label = {''X'', ''Y''},
                           ann_text = py_slice text 5 3\<rparr>"

definition cycling ::
  "string \<Rightarrow> string set annotation list \<Rightarrow> string set annotation list \<Rightarrow> bool" where
  "cycling text queue merged \<longleftrightarrow>
     (\<exists>tail. queue = left_piece text # reversed_piece text # tail \<and> merged = []) \<or>
     (\<exists>tail. queue = reversed_piece text # tail \<and> merged = [left_piece text])"

section \<open>The split of two overlapping spans\<close>

text \<open>
  Claim C2. \<open>overlap_handler\<close> returns exactly the three pieces of the split rule,
  with \<open>first\<close> the span of smaller start (the current annotation when the starts are
  equal). Merging \<open>A = [0, 10)\<close> labelled X with \<open>B = [5, 15)\<close> labelled Y on a text
  of 15 characters gives \<open>[0, 5)\<close> with X, \<open>[5, 10)\<close> with X and Y, \<open>[10, 15)\<close>
  with Y; merging \<open>A = [0, 20)\<close> labelled X with \<open>B = [5, 10)\<close> labelled Y on a text of
  20 characters gives \<open>[0, 5)\<close> with X, \<open>[5, 10)\<close> with X and Y, \<open>[10, 20)\<close> with X.
\<close>

theorem overlap_handler_three_pieces:
  "overlap_handler current_annotation annotation text =
     (if ann_start current_annotation \<le> ann_start annotation
      then split_pieces current_annotation annotation text
      else split_pieces annotation current_annotation text)
   \<and> length (overlap_handler current_annotation annotation text) = 3
   \<and> map_option sort_by_start
        (resolve_queue ''0123456789abcde''
          [\<lparr>ann_start = 0, ann_end = 10, ann_label = {''X''}, ann_text = ''0123456789''\<rparr>,
           \<lparr>ann_start = 5, ann_end = 15, ann_label = {''Y''}, ann_text = ''56789abcde''\<rparr>]
          [])
      = Some [\<lparr>ann_start = 0, ann_end = 5, ann_label = {''X''}, ann_text = ''01234''\<rparr>,
              \<lparr>ann_start = 5, ann_end = 10, ann_label = {''X'', ''Y''},
                ann_text = ''56789''\<rparr>,
              \<lparr>ann_start = 10, ann_end = 15, ann_label = {''Y''}, ann_text = ''abcde''\<rparr>]
   \<and> map_option sort_by_start
        (resolve_queue ''0123456789abcdefghij''
          [\<lparr>ann_start = 0, ann_end = 20, ann_label = {''X''},
             ann_text = ''0123456789abcdefghij''\<rparr>,
           \<lparr>ann_start = 5, ann_end = 10, ann_label = {''Y''}, ann_text = ''56789''\<rparr>]
          [])
      = Some [\<lparr>ann_start = 0, ann_end = 5, ann_label = {''X''}, ann_text = ''01234''\<rparr>,
              \<lparr>ann_start = 5, ann_end = 10, ann_label = {''X'', ''Y''},
                ann_text = ''56789''\<rparr>,
              \<lparr>ann_start = 10, ann_end = 20, ann_label = {''X''},
                ann_text = ''abcdefghij''\<rparr>]"
proof (intro conjI)
  show "overlap_handler current_annotation annotation text =
     (if ann_start current_annotation \<le> ann_start annotation
      then split_pieces current_annotation annotation text
      else split_pieces annotation current_annotation text)"
    by (simp add: overlap_handler_def split_pieces_def Let_def)
  show "length (overlap_handler current_annotation annotation text) = 3"
    by (simp add: overlap_handler_def Let_def)
qed (code_simp, code_simp)

section \<open>Documents without a proper annotation\<close>

lemma resolve_queue_degenerate:
  "\<forall>a\<in>set queue. ann_start a = ann_end a \<Longrightarrow>
   resolve_queue text queue merged = Some merged"
  by (induction queue) (simp_all add: resolve_queue.simps)

text \<open>
  Claim C10. When the annotation list of a document is empty or holds only degenerate
  spans (\<open>start = end\<close>), the conversion of the document raises \<open>ValueError\<close>, the
  error of \<open>max\<close> on an empty sequence; so does the whole call when \<open>labels\<close> is
  \<open>None\<close> and there is a document.
\<close>

theorem no_proper_annotation_raises:
  "(\<forall>a\<in>set label_seq. ann_start a = ann_end a) \<longrightarrow>
     convert_document list_of multi_label none_value text label_seq = Some (Inl ValueError)
     \<and> indico_to_finetune_sequence list_of (text # texts) (Some (label_seq # labels))
          multi_label none_value = Some (Inl ValueError)
     \<and> indico_to_finetune_sequence list_of (text # texts) None multi_label none_value
          = Some (Inl ValueError)"
proof
  assume deg: "\<forall>a\<in>set label_seq. ann_start a = ann_end a"
  have doc: "convert_document list_of multi_label none_value text label_seq
               = Some (Inl ValueError)"
    using deg
    by (simp add: convert_document_def document_annotations_def Let_def resolve_queue_degenerate with_label_def
          sort_by_start_def add_rest_span_def py_max_def)
  have empty: "convert_document list_of multi_label none_value text []
               = Some (Inl ValueError)"
    by (simp add: convert_document_def document_annotations_def Let_def resolve_queue.simps
          sort_by_start_def add_rest_span_def py_max_def)
  show "convert_document list_of multi_label none_value text label_seq = Some (Inl ValueError)
     \<and> indico_to_finetune_sequence list_of (text # texts) (Some (label_seq # labels))
          multi_label none_value = Some (Inl ValueError)
     \<and> indico_to_finetune_sequence list_of (text # texts) None multi_label none_value
          = Some (Inl ValueError)"
    using doc empty by (simp add: indico_to_finetune_sequence_def)
qed

theorem no_proper_annotation_raises_witness:
  "list_all (\<lambda>a. ann_start a = ann_end a)
     [\<lparr>ann_start = 3, ann_end = 3, ann_label = ''X'', ann_text = ''''\<rparr>]
   \<and> convert_document sorted_list_of_set True ''O'' ''abcdef''
        [\<lparr>ann_start = 3, ann_end = 3, ann_label = ''X'', ann_text = ''''\<rparr>]
      = Some (Inl ValueError)
   \<and> indico_to_finetune_sequence sorted_list_of_set [''abcdef'']
        (None :: string annotation list list option) True ''O''
      = Some (Inl ValueError)"
  using no_proper_annotation_raises
    [of "[\<lparr>ann_start = 3, ann_end = 3, ann_label = ''X'', ann_text = ''''\<rparr>]"
        sorted_list_of_set True "''O''" "''abcdef''" "[]" "[]"]
  by simp

section \<open>Single-label mode\<close>

lemma add_rest_span_nonempty:
  "add_rest_span none_value text anns = Inr r \<Longrightarrow> r \<noteq> []"
  by (cases anns) (auto simp: add_rest_span_def py_max_def split: if_splits)

lemma flatten_labels_Inr: "flatten_labels anns = Inr r \<Longrightarrow> anns = []"
  by (cases anns) (auto split: if_splits)

text \<open>
  Claim C5 (the code departs from it). With \<open>multi_label\<close> false the conversion of a
  document never completes: the flattening loop raises on the first annotation it
  meets, \<open>FinetuneError\<close> when that one has several labels and \<open>KeyError\<close> otherwise.
  A document with the single span \<open>[0, 2)\<close> labelled X raises \<open>KeyError\<close>; spans
  \<open>[0, 10)\<close> with X and \<open>[5, 15)\<close> with Y, whose second resolved span has two labels,
  raise \<open>KeyError\<close> too; \<open>FinetuneError\<close> needs the first resolved span to be the
  one with several labels.
\<close>

theorem single_label_mode_never_completes:
  "convert_document list_of False none_value text label_seq \<noteq> Some (Inr r)
   \<and> convert_document sorted_list_of_set False ''O'' ''ab''
        [\<lparr>ann_start = 0, ann_end = 2, ann_label = ''X'', ann_text = ''ab''\<rparr>]
      = Some (Inl KeyError)
   \<and> convert_document sorted_list_of_set False ''O'' ''0123456789abcde''
        [\<lparr>ann_start = 0, ann_end = 10, ann_label = ''X'', ann_text = ''0123456789''\<rparr>,
         \<lparr>ann_start = 5, ann_end = 15, ann_label = ''Y'', ann_text = ''56789abcde''\<rparr>]
      = Some (Inl KeyError)
   \<and> convert_document sorted_list_of_set False ''O'' ''0123456789''
        [\<lparr>ann_start = 0, ann_end = 10, ann_label = ''X'', ann_text = ''0123456789''\<rparr>,
         \<lparr>ann_start = 0, ann_end = 10, ann_label = ''Y'', ann_text = ''0123456789''\<rparr>]
      = Some (Inl (FinetuneError
                    \<lparr>ann_start = 0, ann_end = 10, ann_label = [''X'', ''Y''],
                      ann_text = ''0123456789''\<rparr>))"
proof (intro conjI)
  show "convert_document list_of False none_value text label_seq \<noteq> Some (Inr r)"
    by (auto simp: convert_document_def document_annotations_def Let_def split: option.splits sum.splits
          dest!: add_rest_span_nonempty flatten_labels_Inr)
qed (code_simp, code_simp, code_simp)

section \<open>The association linker selects the first maximum\<close>

lemma store_stored [simp]: "store (stored v) = v"
  by (auto simp: store_def stored_def split: option.splits)





section \<open>Decoding predictions\<close>

text \<open>
  A substring that is not found leaves the annotations as they are, adds a warning
  and raises nothing; the search cursor becomes \<open>-1\<close>.
\<close>

lemma process_label_not_found:
  "py_find raw_text (py_strip sub_str) (raw_annotation_start st) = - 1 \<Longrightarrow>
   process_label raw_text starts ends subtoken_predictions none_value associations_seq
     multi_label sub_str confidences label st
   = Inr (st\<lparr>raw_annotation_start := - 1, warned := warned st @ [py_strip sub_str]\<rparr>)"
  by (simp add: process_label_def Let_def)

text \<open>
  Claim C6 (the code departs from it). In the text \<open>xyz\<close> the substring \<open>q\<close> is not
  found: it gives no annotation and a warning, and no exception. The substring \<open>y\<close>
  that follows it is searched from the cursor \<open>-1\<close>, that is from the last character,
  and is dropped with a warning as well; alone, it is found at offset 1 and emitted.
\<close>

theorem not_found_loses_later_candidates:
  "(finetune_to_indico_sequence NLP [''xyz''] [[''q'', ''y'']]
      [[Single ''L'', Single ''L'']] (None :: unit list list option) ''O'' True
      (None :: (int, string, real) candidate list list list option) :: unit error + _)
     = Inr (([''xyz''], [[]]), [[''q'', ''y'']])
   \<and> (finetune_to_indico_sequence NLP [''xyz''] [[''y'']]
      [[Single ''L'']] (None :: unit list list option) ''O'' True
      (None :: (int, string, real) candidate list list list option) :: unit error + _)
     = Inr (([''xyz''],
             [[\<lparr>out_start = 1, out_end = 2, out_label = ''L'', out_text = ''y'',
                out_associations = None, out_confidence = None\<rparr>]]), [[]])"
  by code_simp

section \<open>The round trip\<close>

text \<open>
  Claim C3 (the code departs from it). The text \<open>aa\<close> with the annotations
  \<open>[0, 1)\<close> labelled X and \<open>[1, 2)\<close> labelled Y, which do not overlap and cover the
  text, is converted to the substrings \<open>a\<close>, \<open>a\<close> with the label tuples (X) and (Y).
  Converted back, the second substring is found at offset 0 again, since the search
  starts at the start of the previous match: the result is \<open>[0, 1)\<close> with X and
  \<open>[0, 1)\<close> with Y, and with whole-token snapping on the one word token \<open>aa\<close> it is
  \<open>[0, 2)\<close> with X and \<open>[0, 2)\<close> with Y.
\<close>

theorem round_trip_repeated_substring:
  "indico_to_finetune_sequence sorted_list_of_set [''aa'']
      (Some [[\<lparr>ann_start = 0, ann_end = 1, ann_label = ''X'', ann_text = ''a''\<rparr>,
              \<lparr>ann_start = 1, ann_end = 2, ann_label = ''Y'', ann_text = ''a''\<rparr>]]) True ''O''
     = Some (Inr ([[''a'', ''a'']], [[[''X''], [''Y'']]], [[]], [[]], [[]]))
   \<and> (finetune_to_indico_sequence NLP [''aa''] [[''a'', ''a'']]
        [[Multi [''X''], Multi [''Y'']]] (None :: unit list list option) ''O'' True
        (None :: (int, string, real) candidate list list list option) :: unit error + _)
     = Inr (([''aa''],
             [[\<lparr>out_start = 0, out_end = 1, out_label = ''X'', out_text = ''a'',
                 out_associations = None, out_confidence = None\<rparr>,
               \<lparr>out_start = 0, out_end = 1, out_label = ''Y'', out_text = ''a'',
                 out_associations = None, out_confidence = None\<rparr>]]), [[]])
   \<and> (finetune_to_indico_sequence (\<lambda>raw_text. [(0, ''aa'')]) [''aa''] [[''a'', ''a'']]
        [[Multi [''X''], Multi [''Y'']]] (None :: unit list list option) ''O'' False
        (None :: (int, string, real) candidate list list list option) :: unit error + _)
     = Inr (([''aa''],
             [[\<lparr>out_start = 0, out_end = 2, out_label = ''X'', out_text = ''aa'',
                 out_associations = None, out_confidence = None\<rparr>,
               \<lparr>out_start = 0, out_end = 2, out_label = ''Y'', out_text = ''aa'',
                 out_associations = None, out_confidence = None\<rparr>]]), [[]])"
  by code_simp

section \<open>Termination of the worklist\<close>

lemma mass_simps [simp]:
  "mass [] = 0" "mass (a # xs) = span_length a + mass xs" "mass (xs @ ys) = mass xs + mass ys"
  by (simp_all add: mass_def)

lemma mass_nonneg: "\<forall>a\<in>set xs. ann_start a \<le> ann_end a \<Longrightarrow> 0 \<le> mass xs"
  by (induction xs) (auto simp: span_length_def)

lemma mass_remove1: "a \<in> set xs \<Longrightarrow> mass (remove1 a xs) = mass xs - span_length a"
  by (induction xs) auto

lemma scan_merged_Split:
  "scan_merged c xs = Split_with a \<Longrightarrow> a \<in> set xs \<and> overlap c a"
  by (induction xs) (auto split: if_splits)

lemma set_sort_by_start [simp]: "set (sort_by_start xs) = set xs"
  by (simp add: sort_by_start_def)

lemma overlap_handler_mass:
  assumes "overlap c a" "ann_start c < ann_end c" "ann_start a < ann_end a"
  shows "mass (overlap_handler c a text) < span_length c + span_length a"
    and "\<forall>p\<in>set (overlap_handler c a text). ann_start p \<le> ann_end p"
  using assms by (auto simp: overlap_handler_def overlap_def span_length_def Let_def)

lemma resolve_queue_terminates:
  assumes "\<forall>a\<in>set queue. ann_start a \<le> ann_end a"
    and "\<forall>a\<in>set merged. ann_start a < ann_end a"
  shows "\<exists>r. resolve_queue text queue merged = Some r"
  using assms
proof (induction n \<equiv> "nat (3 * (mass queue + mass merged)) + length queue"
         arbitrary: queue merged rule: less_induct)
  case less
  show ?case
  proof (cases queue)
    case Nil
    then show ?thesis by (simp add: resolve_queue.simps)
  next
    case (Cons c rest)
    have rest_wf: "\<forall>a\<in>set rest. ann_start a \<le> ann_end a" and c_wf: "ann_start c \<le> ann_end c"
      using less.prems(1) Cons by auto
    show ?thesis
    proof (cases "ann_start c = ann_end c")
      case True
      have "\<exists>r. resolve_queue text rest merged = Some r"
        by (rule less.hyps [OF _ rest_wf less.prems(2)]) (simp add: Cons span_length_def True)
      then show ?thesis using True Cons by (subst resolve_queue.simps) simp
    next
      case False
      with c_wf have c_nd: "ann_start c < ann_end c" by simp
      show ?thesis
      proof (cases "scan_merged c (sort_by_start merged)")
        case Append_current
        have "\<exists>r. resolve_queue text rest (merged @ [c]) = Some r"
          by (rule less.hyps [OF _ rest_wf]) (use less.prems(2) c_nd in \<open>auto simp: Cons\<close>)
        then show ?thesis using False Cons Append_current by (subst resolve_queue.simps) simp
      next
        case (Split_with a)
        from scan_merged_Split [OF Split_with] have a_in: "a \<in> set merged" and ov: "overlap c a"
          by auto
        from a_in less.prems(2) have a_nd: "ann_start a < ann_end a" by auto
        note oh = overlap_handler_mass [OF ov c_nd a_nd, of "text"]
        have q_wf: "\<forall>a\<in>set (overlap_handler c a text @ rest). ann_start a \<le> ann_end a"
          using oh(2) rest_wf by auto
        have m_nd: "\<forall>a\<in>set (remove1 a merged). ann_start a < ann_end a"
          using less.prems(2) by (auto dest: notin_set_remove1)
        have nn: "0 \<le> mass (overlap_handler c a text @ rest) + mass (remove1 a merged)"
          using mass_nonneg [OF q_wf] mass_nonneg [of "remove1 a merged"] m_nd
          by (auto simp: less_imp_le)
        have "\<exists>r. resolve_queue text (overlap_handler c a text @ rest) (remove1 a merged) = Some r"
        proof (rule less.hyps [OF _ q_wf m_nd])
          have len: "length (overlap_handler c a text) = 3"
            by (simp add: overlap_handler_def Let_def)
          show "nat (3 * (mass (overlap_handler c a text @ rest) + mass (remove1 a merged)))
                  + length (overlap_handler c a text @ rest)
                < nat (3 * (mass queue + mass merged)) + length queue"
            using oh(1) nn len by (simp add: Cons mass_remove1 [OF a_in])
        qed
        then show ?thesis using False Cons Split_with by (subst resolve_queue.simps) simp
      qed
    qed
  qed
qed

text \<open>
  Claim C4. For every list of annotation spans, each with \<open>start \<le> end\<close> as the data
  model has it, the worklist loop ends, and so the conversion of the document returns
  or raises. Each split strictly reduces the total length of the spans at hand: the
  pieces of two overlapping proper spans are shorter in total than the two spans.
\<close>

theorem worklist_terminates:
  "((\<forall>a\<in>set label_seq. ann_start a \<le> ann_end a) \<longrightarrow>
      (\<exists>merged. resolve_queue text
                   (map (with_label (\<lambda>l. {l}))
                      (sort_key ann_start (sort_key ann_start label_seq))) []
                 = Some merged)
      \<and> convert_document list_of multi_label none_value text label_seq \<noteq> None)
   \<and> (overlap c a \<and> ann_start c < ann_end c \<and> ann_start a < ann_end a \<longrightarrow>
        mass (overlap_handler c a text) < mass [c, a])"
proof (intro conjI impI)
  assume wf: "\<forall>a\<in>set label_seq. ann_start a \<le> ann_end a"
  let ?queue = "map (with_label (\<lambda>l. {l}))
                  (sort_key ann_start (sort_key ann_start label_seq))"
  have "\<forall>a\<in>set ?queue. ann_start a \<le> ann_end a"
    using wf by (auto simp: with_label_def)
  from resolve_queue_terminates [OF this, of "[]" "text"]
  show ex: "\<exists>merged. resolve_queue text ?queue [] = Some merged" by simp
  then show "convert_document list_of multi_label none_value text label_seq \<noteq> None"
    by (auto simp: convert_document_def document_annotations_def Let_def
          split: sum.splits)
next
  assume "overlap c a \<and> ann_start c < ann_end c \<and> ann_start a < ann_end a"
  then show "mass (overlap_handler c a text) < mass [c, a]"
    using overlap_handler_mass(1) [of c a "text"] by simp
qed

theorem worklist_terminates_witness:
  "(\<exists>merged. resolve_queue ''0123456789abcde''
       (map (with_label (\<lambda>l. {l}))
          (sort_key ann_start (sort_key ann_start
             [\<lparr>ann_start = 5, ann_end = 15, ann_label = ''Y'', ann_text = ''56789abcde''\<rparr>,
              \<lparr>ann_start = 0, ann_end = 10, ann_label = ''X'', ann_text = ''0123456789''\<rparr>])))
       [] = Some merged)
   \<and> convert_document sorted_list_of_set True ''O'' ''0123456789abcde''
        [\<lparr>ann_start = 5, ann_end = 15, ann_label = ''Y'', ann_text = ''56789abcde''\<rparr>,
         \<lparr>ann_start = 0, ann_end = 10, ann_label = ''X'', ann_text = ''0123456789''\<rparr>]
       \<noteq> None
   \<and> mass (overlap_handler
              \<lparr>ann_start = 5, ann_end = 15, ann_label = {''Y''}, ann_text = ''56789abcde''\<rparr>
              \<lparr>ann_start = 0, ann_end = 10, ann_label = {''X''}, ann_text = ''0123456789''\<rparr>
              ''0123456789abcde'')
       < mass [\<lparr>ann_start = 5, ann_end = 15, ann_label = {''Y''},
                 ann_text = ''56789abcde''\<rparr>,
               \<lparr>ann_start = 0, ann_end = 10, ann_label = {''X''},
                 ann_text = ''0123456789''\<rparr>]"
  using worklist_terminates
    [of "[\<lparr>ann_start = 5, ann_end = 15, ann_label = ''Y'', ann_text = ''56789abcde''\<rparr>,
          \<lparr>ann_start = 0, ann_end = 10, ann_label = ''X'', ann_text = ''0123456789''\<rparr>]"
        "''0123456789abcde''" sorted_list_of_set True "''O''"
        "\<lparr>ann_start = 5, ann_end = 15, ann_label = {''Y''}, ann_text = ''56789abcde''\<rparr>"
        "\<lparr>ann_start = 0, ann_end = 10, ann_label = {''X''}, ann_text = ''0123456789''\<rparr>"]
  by (simp add: overlap_def)

subsection \<open>Outside the data model\<close>

lemma cycling_never_returns:
  assumes "resolve_queue text queue merged = Some r"
  shows "\<not> cycling text queue merged"
proof (rule resolve_queue.raw_induct
         [where P = "\<lambda>t q m y. \<not> cycling t q m", OF _ assms], goal_cases)
  case (1 rq doc q m y)
  show ?case
  proof
    assume "cycling doc q m"
    then consider tail where "q = left_piece doc # reversed_piece doc # tail" "m = []"
      | tail where "q = reversed_piece doc # tail" "m = [left_piece doc]"
      unfolding cycling_def by blast
    then show False
    proof cases
      case 1
      with \<open>_ = Some y\<close> have "rq doc (reversed_piece doc # tail) [left_piece doc] = Some y"
        by (simp add: left_piece_def sort_by_start_def)
      from \<open>\<And>queue merged b y. rq queue merged b = Some y \<Longrightarrow> \<not> cycling queue merged b\<close> [OF this]
      show False by (auto simp: cycling_def)
    next
      case 2
      have scan: "scan_merged (reversed_piece doc) (sort_by_start [left_piece doc])
                    = Split_with (left_piece doc)"
        by (simp add: sort_by_start_def reversed_piece_def left_piece_def overlap_def)
      have chunks: "overlap_handler (reversed_piece doc) (left_piece doc) doc
                = [left_piece doc, reversed_piece doc,
                   \<lparr>ann_start = 3, ann_end = 5, ann_label = {''X''},
                     ann_text = py_slice doc 3 5\<rparr>]"
        by (auto simp: overlap_handler_def reversed_piece_def left_piece_def Let_def)
      have np: "ann_start (reversed_piece doc) \<noteq> ann_end (reversed_piece doc)"
        by (simp add: reversed_piece_def)
      from 2 \<open>_ = Some y\<close>
      have "rq doc (overlap_handler (reversed_piece doc) (left_piece doc) doc @ tail) []
              = Some y"
        by (simp add: np scan)
      from \<open>\<And>queue merged b y. rq queue merged b = Some y \<Longrightarrow> \<not> cycling queue merged b\<close> [OF this]
      show False by (auto simp: cycling_def chunks)
    qed
  qed
qed

text \<open>
  The hypothesis \<open>start \<le> end\<close> of the termination theorem is needed: on the span
  \<open>[0, 10)\<close> followed by a span that starts at 5 and ends at 3, which is no span of
  the data model, the loop never ends.
\<close>

lemma worklist_diverges_on_reversed_span:
  "resolve_queue text
     [\<lparr>ann_start = 0, ann_end = 10, ann_label = {''X''}, ann_text = py_slice text 0 10\<rparr>,
      \<lparr>ann_start = 5, ann_end = 3, ann_label = {''Y''}, ann_text = py_slice text 5 3\<rparr>] []
   = None"
proof (rule ccontr)
  let ?A = "\<lparr>ann_start = 0, ann_end = 10, ann_label = {''X''}, ann_text = py_slice text 0 10\<rparr>"
  let ?B = "\<lparr>ann_start = 5, ann_end = 3, ann_label = {''Y''}, ann_text = py_slice text 5 3\<rparr>"
  assume "resolve_queue text [?A, ?B] [] \<noteq> None"
  then obtain r where r: "resolve_queue text [?A, ?B] [] = Some r" by auto
  have s1: "resolve_queue text [?A, ?B] [] = resolve_queue text [?B] [?A]"
    by (subst resolve_queue.simps) (simp add: sort_by_start_def)
  have s2: "resolve_queue text [?B] [?A]
          = resolve_queue text (overlap_handler ?B ?A text) []"
    by (subst resolve_queue.simps) (simp add: sort_by_start_def overlap_def)
  have chunks: "overlap_handler ?B ?A text
       = [left_piece text, reversed_piece text,
          \<lparr>ann_start = 3, ann_end = 10, ann_label = {''X''}, ann_text = py_slice text 3 10\<rparr>]"
    by (auto simp: overlap_handler_def reversed_piece_def left_piece_def Let_def)
  from r have "resolve_queue text (overlap_handler ?B ?A text) [] = Some r"
    by (simp add: s1 s2)
  from cycling_never_returns [OF this] show False
    by (simp add: cycling_def chunks)
qed

section \<open>Degenerate spans\<close>

lemma resolve_queue_skip_degenerate:
  "\<forall>d\<in>set ds. \<not> proper d \<Longrightarrow>
   resolve_queue text (ds @ queue) merged = resolve_queue text queue merged"
proof (induction ds)
  case Nil
  show ?case by simp
next
  case (Cons d ds)
  then have "resolve_queue text ((d # ds) @ queue) merged = resolve_queue text (ds @ queue) merged"
    by (subst resolve_queue.simps) (simp add: proper_def)
  with Cons show ?case by simp
qed

lemma resolve_queue_proper_head:
  "proper c \<Longrightarrow>
   resolve_queue text (c # rest) merged =
     (case scan_merged c (sort_by_start merged) of
        Append_current \<Rightarrow> resolve_queue text rest (merged @ [c])
      | Split_with a \<Rightarrow>
          resolve_queue text (overlap_handler c a text @ rest) (remove1 a merged))"
  by (subst resolve_queue.simps) (simp add: proper_def)

lemma resolve_queue_same_proper_aux:
  assumes "resolve_queue text q1 merged = Some r"
  shows "\<forall>q2. filter proper q2 = filter proper q1 \<longrightarrow> resolve_queue text q2 merged = Some r"
proof (rule resolve_queue.raw_induct
         [where P = "\<lambda>t q m y. \<forall>q2. filter proper q2 = filter proper q \<longrightarrow>
                                  resolve_queue t q2 m = Some y", OF _ assms],
       goal_cases)
  case (1 rq doc q1 merged r)
  show ?case
  proof (intro allI impI)
    fix q2 :: "'a set annotation list"
    assume eq: "filter proper q2 = filter proper q1"
    show "resolve_queue doc q2 merged = Some r"
    proof (cases q1)
      case Nil
      with eq have "\<forall>d\<in>set q2. \<not> proper d" by (simp add: filter_empty_conv)
      from resolve_queue_skip_degenerate [OF this, of doc "[]" merged]
      have "resolve_queue doc q2 merged = Some merged"
        by (simp add: resolve_queue.simps)
      with 1(2) Nil show ?thesis by simp
    next
      case (Cons c rest)
      show ?thesis
      proof (cases "proper c")
        case False
        with 1(2) Cons have "rq doc rest merged = Some r" by (simp add: proper_def)
        from 1(1) [OF this] eq Cons False show ?thesis by simp
      next
        case True
        with eq Cons have "filter proper q2 = c # filter proper rest" by simp
        then obtain ds q2' where q2: "q2 = ds @ c # q2'" and ds: "\<forall>d\<in>set ds. \<not> proper d"
          and rest: "filter proper rest = filter proper q2'"
          unfolding filter_eq_Cons_iff by blast
        have step: "resolve_queue doc q2 merged = resolve_queue doc (c # q2') merged"
          unfolding q2 by (rule resolve_queue_skip_degenerate [OF ds])
        show ?thesis
        proof (cases "scan_merged c (sort_by_start merged)")
          case Append_current
          with 1(2) Cons True have "rq doc rest (merged @ [c]) = Some r"
            by (simp add: proper_def)
          from 1(1) [OF this] rest have "resolve_queue doc q2' (merged @ [c]) = Some r" by simp
          then show ?thesis
            unfolding step resolve_queue_proper_head [OF True] Append_current by simp
        next
          case (Split_with a)
          with 1(2) Cons True
          have "rq doc (overlap_handler c a doc @ rest) (remove1 a merged) = Some r"
            by (simp add: proper_def)
          from 1(1) [OF this] rest
          have "resolve_queue doc (overlap_handler c a doc @ q2') (remove1 a merged) = Some r"
            by simp
          then show ?thesis
            unfolding step resolve_queue_proper_head [OF True] Split_with by simp
        qed
      qed
    qed
  qed
qed

lemma resolve_queue_same_proper:
  assumes "filter proper q2 = filter proper q1"
  shows "resolve_queue text q2 merged = resolve_queue text q1 merged"
proof (cases "resolve_queue text q1 merged")
  case (Some r)
  with resolve_queue_same_proper_aux [OF Some] assms show ?thesis by simp
next
  case None
  show ?thesis
  proof (cases "resolve_queue text q2 merged")
    case (Some r)
    from resolve_queue_same_proper_aux [OF Some] assms
    have "resolve_queue text q1 merged = Some r" by simp
    with None show ?thesis by simp
  qed (simp add: None)
qed

lemma proper_with_label [simp]: "proper (with_label f a) = proper a"
  by (simp add: proper_def with_label_def)

lemma convert_document_filter:
  "convert_document list_of multi_label none_value text (filter proper label_seq)
   = convert_document list_of multi_label none_value text label_seq"
proof -
  have "filter proper (map (with_label (\<lambda>l. {l}))
           (sort_key ann_start (sort_key ann_start (filter proper label_seq))))
      = filter proper (map (with_label (\<lambda>l. {l}))
           (sort_key ann_start (sort_key ann_start label_seq)))"
    by (simp add: filter_map comp_def filter_sort [symmetric])
  from resolve_queue_same_proper [OF this]
  show ?thesis by (simp add: convert_document_def document_annotations_def Let_def)
qed

lemma convert_documents_map:
  "convert_documents f (map g ds) = convert_documents (\<lambda>d. f (g d)) ds"
  by (induction ds) (simp_all split: option.splits sum.splits)


text \<open>
  Claim C8. The spans with \<open>start = end\<close> contribute nothing: the conversion of a
  document, and of a list of documents, has the same outcome (the same substrings and
  labels, or the same exception) with them as without them, whatever their labels. So
  a degenerate span is never the cause of an error; the text \<open>abcdef\<close> with the span
  \<open>[0, 3)\<close> labelled X and the degenerate span \<open>[2, 2)\<close> labelled Y is converted
  to \<open>abc\<close> with X and \<open>def\<close> with the none-value.
\<close>

theorem degenerate_spans_are_dropped:
  "convert_document list_of multi_label none_value text (filter proper label_seq)
     = convert_document list_of multi_label none_value text label_seq
   \<and> indico_to_finetune_sequence list_of texts (Some (map (filter proper) labels))
       multi_label none_value
     = indico_to_finetune_sequence list_of texts (Some labels) multi_label none_value
   \<and> convert_document sorted_list_of_set True ''O'' ''abcdef''
       [\<lparr>ann_start = 0, ann_end = 3, ann_label = ''X'', ann_text = ''abc''\<rparr>,
        \<lparr>ann_start = 2, ann_end = 2, ann_label = ''Y'', ann_text = []\<rparr>]
     = Some (Inr ([''abc'', ''def''], [[''X''], [''O'']]))"
proof (intro conjI)
  show "convert_document list_of multi_label none_value text (filter proper label_seq)
     = convert_document list_of multi_label none_value text label_seq"
    by (rule convert_document_filter)
  show "indico_to_finetune_sequence list_of texts (Some (map (filter proper) labels))
       multi_label none_value
     = indico_to_finetune_sequence list_of texts (Some labels) multi_label none_value"
    by (simp add: indico_to_finetune_sequence_def zip_map2 convert_documents_map
          case_prod_unfold convert_document_filter)
qed code_simp

section \<open>Whole-token snapping\<close>

lemma advance_start_idx_aligned:
  "sorted starts \<Longrightarrow> k < length starts \<Longrightarrow> starts ! k = s \<Longrightarrow>
   i \<le> k \<or> (1 \<le> i \<and> i \<le> length starts \<and> starts ! (i - 1) = s) \<Longrightarrow>
   1 \<le> advance_start_idx starts s i \<and>
   advance_start_idx starts s i \<le> length starts \<and>
   starts ! (advance_start_idx starts s i - 1) = s"
proof (induction starts s i rule: advance_start_idx.induct)
  case (1 starts s i)
  show ?case
  proof (cases "i < length starts \<and> starts ! i \<le> s")
    case True
    have next_ok: "Suc i \<le> k \<or> (1 \<le> Suc i \<and> Suc i \<le> length starts \<and> starts ! (Suc i - 1) = s)"
    proof (cases "i < k")
      case False
      have "s \<le> starts ! i"
      proof (cases "i = k")
        case True then show ?thesis using 1(4) by simp
      next
        case False
        with \<open>\<not> i < k\<close> 1(5) have "1 \<le> i" "starts ! (i - 1) = s" by auto
        moreover have "starts ! (i - 1) \<le> starts ! i"
          using 1(2) True by (intro sorted_nth_mono) auto
        ultimately show ?thesis by simp
      qed
      with True show ?thesis by auto
    qed simp
    have "advance_start_idx starts s i = advance_start_idx starts s (Suc i)"
      using True by (subst advance_start_idx.simps) simp
    with 1(1) [OF _ 1(2) 1(3) 1(4) next_ok] True show ?thesis by simp
  next
    case False
    then have stop: "advance_start_idx starts s i = i"
      by (subst advance_start_idx.simps) auto
    have "\<not> i \<le> k"
    proof
      assume "i \<le> k"
      then have "starts ! i \<le> starts ! k" using 1(2,3) by (intro sorted_nth_mono) auto
      with False 1(3,4) \<open>i \<le> k\<close> show False by auto
    qed
    with 1(5) show ?thesis unfolding stop by auto
  qed
qed

lemma advance_end_idx_aligned:
  "sorted ends \<Longrightarrow> j < length ends \<Longrightarrow> ends ! j = e \<Longrightarrow> i \<le> j \<Longrightarrow>
   advance_end_idx ends e i < length ends \<and> ends ! advance_end_idx ends e i = e"
proof (induction ends e i rule: advance_end_idx.induct)
  case (1 ends e i)
  show ?case
  proof (cases "int i < int (length ends) - 1 \<and> ends ! i < e")
    case True
    with 1(4,5) have "i \<noteq> j" by auto
    with 1(5) have "Suc i \<le> j" by simp
    have "advance_end_idx ends e i = advance_end_idx ends e (Suc i)"
      using True by (subst advance_end_idx.simps) simp
    with 1(1) [OF _ 1(2) 1(3) 1(4) \<open>Suc i \<le> j\<close>] True show ?thesis by simp
  next
    case False
    then have stop: "advance_end_idx ends e i = i"
      by (subst advance_end_idx.simps) auto
    have "ends ! i \<le> ends ! j" using 1(2,3,5) by (intro sorted_nth_mono) auto
    with False 1(3,4,5) show ?thesis unfolding stop by (cases "i = j") auto
  qed
qed

lemma py_index_in_range: "i < length xs \<Longrightarrow> py_index xs (int i) = Inr (xs ! i)"
  by (simp add: py_index_def)


lemma py_index_pred:
  "1 \<le> i \<Longrightarrow> i \<le> length xs \<Longrightarrow> py_index xs (int i - 1) = Inr (xs ! (i - 1))"
proof -
  assume a: "1 \<le> i" "i \<le> length xs"
  then have "nat (int i - 1) = i - 1" "0 \<le> int i - 1" "int i - 1 < int (length xs)" by auto
  then show ?thesis by (simp add: py_index_def)
qed

lemma snap_to_tokens_aligned:
  assumes sorted: "sorted starts" "sorted ends"
    and k: "k < length starts" "starts ! k = s"
    and j: "j < length ends" "ends ! j = e"
    and cursors: "start_idx st \<le> Suc k" "end_idx st \<le> j"
  shows "\<exists>i' j'. (snap_to_tokens starts ends s e st :: 'e error + _)
           = Inr (s, e, st\<lparr>start_idx := i', end_idx := j'\<rparr>)"
proof -
  define i where "i = advance_start_idx starts s (start_idx st)"
  define j' where "j' = advance_end_idx ends e (end_idx st)"
  have pre: "start_idx st \<le> k \<or>
        (1 \<le> start_idx st \<and> start_idx st \<le> length starts \<and> starts ! (start_idx st - 1) = s)"
    using cursors(1) k by (cases "start_idx st = Suc k") auto
  have si: "1 \<le> i \<and> i \<le> length starts \<and> starts ! (i - 1) = s"
    unfolding i_def by (rule advance_start_idx_aligned [OF sorted(1) k pre])
  with py_index_pred [of i starts]
  have start: "(py_index starts (int i - 1) :: 'e error + int) = Inr s" by simp
  have sj: "j' < length ends \<and> ends ! j' = e"
    unfolding j'_def by (rule advance_end_idx_aligned [OF sorted(2) j cursors(2)])
  with py_index_in_range [of j' ends]
  have stop: "(py_index ends (int j') :: 'e error + int) = Inr e" by simp
  have "(snap_to_tokens starts ends s e st :: 'e error + _)
           = Inr (s, e, st\<lparr>start_idx := i, end_idx := j'\<rparr>)"
    unfolding snap_to_tokens_def Let_def i_def [symmetric] j'_def [symmetric] start stop
    by simp
  then show ?thesis by blast
qed

lemma emit_annotation_result:
  assumes "label \<noteq> none_value"
  shows "(s, e, label) \<in> annotation_ranges
            (emit_annotation raw_text none_value associations_seq confidences label s e st)"
    and "(s, e, label) \<in> annotation_ranges st \<Longrightarrow>
         doc_annotations
           (emit_annotation raw_text none_value associations_seq confidences label s e st)
         = doc_annotations st"
    and "(s, e, label) \<notin> annotation_ranges st \<Longrightarrow>
         \<exists>a. doc_annotations
               (emit_annotation raw_text none_value associations_seq confidences label s e st)
             = doc_annotations st @ [a] \<and> out_start a = s \<and> out_end a = e \<and> out_label a = label"
  using assms by (simp_all add: emit_annotation_def Let_def)

text \<open>
  Claim C9, as amended. With whole-token snapping on, let a substring with a label other
  than the none-value be located at \<open>[s, e)\<close>, where \<open>s\<close> is the start of the word
  token \<open>k\<close> and \<open>e\<close> the end of the word token \<open>j\<close>, the token starts and the token
  ends being in ascending order. If the cursors have not moved past these tokens
  (\<open>start_idx \<le> k + 1\<close> and \<open>end_idx \<le> j\<close>), as is always the case for a tuple of
  labels, which resets them, then the annotation is emitted with exactly the
  boundaries \<open>s\<close> and \<open>e\<close>, or is dropped as the duplicate of one with these boundaries.
\<close>

theorem snapping_keeps_aligned_boundaries:
  assumes mode: "\<not> subtoken_predictions" "label \<noteq> none_value"
    and found: "py_find raw_text (py_strip sub_str) (raw_annotation_start st) = s" "s \<noteq> - 1"
    and e: "e = s + int (length (py_strip sub_str))"
    and sorted: "sorted starts" "sorted ends"
    and k: "k < length starts" "starts ! k = s"
    and j: "j < length ends" "ends ! j = e"
    and cursors: "multi_label \<or> (start_idx st \<le> Suc k \<and> end_idx st \<le> j)"
  shows "\<exists>st'. process_label raw_text starts ends subtoken_predictions none_value
                 associations_seq multi_label sub_str confidences label st = (Inr st' :: 'e error + _)
           \<and> (s, e, label) \<in> annotation_ranges st'
           \<and> (if (s, e, label) \<in> annotation_ranges st
               then doc_annotations st' = doc_annotations st
               else \<exists>a. doc_annotations st' = doc_annotations st @ [a] \<and>
                        out_start a = s \<and> out_end a = e \<and> out_label a = label)"
proof -
  define st1 where "st1 = st\<lparr>raw_annotation_start := s\<rparr>"
  define st2 where "st2 = (if multi_label then st1\<lparr>start_idx := 0, end_idx := 0\<rparr> else st1)"
  have c2: "start_idx st2 \<le> Suc k" "end_idx st2 \<le> j"
    using cursors by (auto simp: st2_def st1_def)
  from snap_to_tokens_aligned [OF sorted k j c2] obtain i' j' where
    snap: "(snap_to_tokens starts ends s e st2 :: 'e error + _)
             = Inr (s, e, st2\<lparr>start_idx := i', end_idx := j'\<rparr>)"
    by blast
  define st3 where "st3 = st2\<lparr>start_idx := i', end_idx := j'\<rparr>"
  have same: "annotation_ranges st3 = annotation_ranges st" "doc_annotations st3 = doc_annotations st"
    by (simp_all add: st3_def st2_def st1_def)
  have run: "(process_label raw_text starts ends subtoken_predictions none_value
                 associations_seq multi_label sub_str confidences label st :: 'e error + _)
        = Inr (emit_annotation raw_text none_value associations_seq confidences label s e st3)"
  proof (cases multi_label)
    case True
    with snap have "(snap_to_tokens starts ends s e
                       (st\<lparr>raw_annotation_start := s, start_idx := 0, end_idx := 0\<rparr>)
                     :: 'e error + _) = Inr (s, e, st3)"
      by (simp add: st1_def st2_def st3_def)
    with True mode found(2) show ?thesis
      by (simp add: process_label_def Let_def found(1) e [symmetric])
  next
    case False
    with snap have "(snap_to_tokens starts ends s e (st\<lparr>raw_annotation_start := s\<rparr>)
                     :: 'e error + _) = Inr (s, e, st3)"
      by (simp add: st1_def st2_def st3_def)
    with False mode found(2) show ?thesis
      by (simp add: process_label_def Let_def found(1) e [symmetric])
  qed
  show ?thesis
    using emit_annotation_result [OF mode(2), where s = s and e = e and st = st3
            and raw_text = raw_text and associations_seq = associations_seq
            and confidences = confidences]
    unfolding run same by auto
qed

theorem snapping_keeps_aligned_boundaries_witness:
  "\<exists>st'. (process_label ''hello world'' [0, 6] [5, 11] False ''O''
             (None :: (int \<rightharpoonup> int \<times> string \<times> real) option) False ''world''
             (None :: unit option) ''B''
             \<lparr>doc_annotations = [], annotation_ranges = {}, start_idx = 0, end_idx = 0,
              raw_annotation_start = 0, warned = []\<rparr> :: unit error + _) = Inr st'
         \<and> (6, 11, ''B'') \<in> annotation_ranges st'
         \<and> (\<exists>a. doc_annotations st' = [a] \<and> out_start a = 6 \<and> out_end a = 11 \<and>
                  out_label a = ''B'')"
proof -
  have found: "py_find ''hello world'' (py_strip ''world'') 0 = 6"
    by code_simp
  have len: "(11 :: int) = 6 + int (length (py_strip ''world''))"
    by code_simp
  show ?thesis
    using snapping_keeps_aligned_boundaries
      [where subtoken_predictions = False and label = "''B''" and none_value = "''O''"
         and raw_text = "''hello world''" and sub_str = "''world''"
         and st = "\<lparr>doc_annotations = [], annotation_ranges = {}, start_idx = 0,
                    end_idx = 0, raw_annotation_start = 0, warned = []\<rparr>"
         and s = 6 and e = 11 and starts = "[0, 6]" and ends = "[5, 11]"
         and k = 1 and j = 1 and multi_label = False
         and associations_seq = "None :: (int \<rightharpoonup> int \<times> string \<times> real) option"
         and confidences = "None :: unit option"]
      found len
    by simp
qed

text \<open>
  The claim itself fails when the cursors persist. In \<open>hello world\<close>, with the word
  tokens \<open>hello\<close> at \<open>[0, 5)\<close> and \<open>world\<close> at \<open>[6, 11)\<close>, the substring
  \<open>hello world\<close> labelled A moves \<open>end_idx\<close> to the second token. The substring
  \<open>hello\<close> labelled B that follows is located at \<open>[0, 5)\<close>, a token start and a
  token end, and its annotation is emitted with the end 11.
\<close>

theorem snapping_moves_aligned_end:
  "py_find ''hello world'' (py_strip ''hello'') 0 = 0
   \<and> int (length (py_strip ''hello'')) = 5
   \<and> map fst [(0 :: int, ''hello''), (6, ''world'')] ! 0 = 0
   \<and> map (\<lambda>(idx, token_text). idx + int (length token_text))
         [(0 :: int, ''hello''), (6, ''world'')] ! 0 = 5
   \<and> (finetune_to_indico_sequence (\<lambda>raw_text. [(0, ''hello''), (6, ''world'')])
        [''hello world''] [[''hello world'', ''hello'']] [[Single ''A'', Single ''B'']]
        (None :: unit list list option) ''O'' False
        (None :: (int, string, real) candidate list list list option) :: unit error + _)
     = Inr (([''hello world''],
             [[\<lparr>out_start = 0, out_end = 11, out_label = ''A'',
                 out_text = ''hello world'', out_associations = None,
                 out_confidence = None\<rparr>,
               \<lparr>out_start = 0, out_end = 11, out_label = ''B'',
                 out_text = ''hello world'', out_associations = None,
                 out_confidence = None\<rparr>]]), [[]])"
  by code_simp

section \<open>The partition of a document\<close>

lemma scan_merged_Append:
  "scan_merged c xs = Append_current \<Longrightarrow> sorted (map ann_start xs) \<Longrightarrow>
   ann_start c < ann_end c \<Longrightarrow> \<forall>b\<in>set xs. ann_start b < ann_end b \<Longrightarrow>
   \<forall>b\<in>set xs. separate c b"
proof (induction xs)
  case Nil
  show ?case by simp
next
  case (Cons b xs)
  show ?case
  proof (cases "ann_start b > ann_end c")
    case True
    with Cons.prems(2) have "\<forall>b'\<in>set (b # xs). ann_end c \<le> ann_start b'" by auto
    then show ?thesis by (auto simp: separate_def)
  next
    case False
    with Cons.prems(1) have no: "\<not> overlap c b" and rest: "scan_merged c xs = Append_current"
      by (auto split: if_splits)
    from no Cons.prems(3,4) have "separate c b"
      by (auto simp: overlap_def separate_def)
    moreover have "\<forall>b\<in>set xs. separate c b"
      using Cons.IH [OF rest] Cons.prems(2,3,4) by simp
    ultimately show ?thesis by simp
  qed
qed

lemma merge_inv_drop:
  "merge_inv text (c # queue) merged \<Longrightarrow> \<not> proper c \<Longrightarrow> merge_inv text queue merged"
  by (auto simp: merge_inv_def)

lemma merge_inv_append:
  assumes inv: "merge_inv text (c # queue) merged" and c: "proper c"
    and scan: "scan_merged c (sort_by_start merged) = Append_current"
  shows "merge_inv text queue (merged @ [c])"
proof -
  have c_nd: "ann_start c < ann_end c"
    using inv c by (auto simp: merge_inv_def well_placed_def proper_def)
  have m_nd: "\<forall>b\<in>set (sort_by_start merged). ann_start b < ann_end b"
    using inv by (auto simp: merge_inv_def well_placed_def proper_def)
  have "sorted (map ann_start (sort_by_start merged))"
    by (simp add: sort_by_start_def)
  from scan_merged_Append [OF scan this c_nd m_nd]
  have sep: "\<forall>b\<in>set merged. separate c b" by simp
  have fresh: "ann_start c \<notin> ann_start ` set merged"
  proof
    assume "ann_start c \<in> ann_start ` set merged"
    then obtain b where b: "b \<in> set merged" "ann_start b = ann_start c" by auto
    with sep have "separate c b" by simp
    moreover from b(1) m_nd have "ann_start b < ann_end b" by auto
    ultimately show False using c_nd b(2) unfolding separate_def by linarith
  qed
  have sym: "separate b c" if "b \<in> set merged" for b
    using sep that by (auto simp: separate_def)
  show ?thesis
    using inv c sep fresh sym by (auto simp: merge_inv_def)
qed

lemma overlap_handler_well_placed:
  assumes "well_placed text c" "well_placed text a" "overlap c a"
  shows "\<forall>p\<in>set (overlap_handler c a text). well_placed text p"
  using assms by (auto simp: overlap_handler_def well_placed_def overlap_def Let_def)

lemma overlap_handler_proper:
  assumes "overlap c a" "ann_start c < ann_end c" "ann_start a < ann_end a"
  shows "\<exists>p\<in>set (overlap_handler c a text). proper p"
proof -
  have "proper (overlap_handler c a text ! 1)"
    using assms by (auto simp: overlap_handler_def overlap_def proper_def Let_def min_def)
  moreover have "overlap_handler c a text ! 1 \<in> set (overlap_handler c a text)"
    by (rule nth_mem) (simp add: overlap_handler_def Let_def)
  ultimately show ?thesis by blast
qed

lemma merge_inv_split:
  assumes inv: "merge_inv text (c # queue) merged" and c: "proper c"
    and scan: "scan_merged c (sort_by_start merged) = Split_with a"
  shows "merge_inv text (overlap_handler c a text @ queue) (remove1 a merged)"
proof -
  from scan_merged_Split [OF scan] have a_in: "a \<in> set merged" and ov: "overlap c a" by auto
  have c_wp: "well_placed text c" and a_wp: "well_placed text a"
    using inv a_in by (auto simp: merge_inv_def)
  have c_nd: "ann_start c < ann_end c" and a_nd: "ann_start a < ann_end a"
    using inv c a_in by (auto simp: merge_inv_def well_placed_def proper_def)
  note wp = overlap_handler_well_placed [OF c_wp a_wp ov]
  note pr = overlap_handler_proper [OF ov c_nd a_nd, of "text"]
  have sub: "set (remove1 a merged) \<subseteq> set merged" by (rule set_remove1_subset)
  have "distinct (map ann_start merged)" using inv by (simp add: merge_inv_def)
  then have "distinct merged" "inj_on ann_start (set merged)" by (auto simp: distinct_map)
  then have "distinct (map ann_start (remove1 a merged))"
    using sub by (auto simp: distinct_map intro: inj_on_subset)
  then have d: "distinct (map ann_start (remove1 a merged))" .
  have q: "\<forall>x\<in>set (overlap_handler c a text @ queue). well_placed text x"
    using inv wp by (auto simp: merge_inv_def)
  have m: "\<forall>x\<in>set (remove1 a merged). well_placed text x \<and> proper x"
    using inv sub by (auto simp: merge_inv_def)
  have s: "\<forall>x\<in>set (remove1 a merged). \<forall>y\<in>set (remove1 a merged).
             ann_start x \<noteq> ann_start y \<longrightarrow> separate x y"
  proof (intro ballI impI)
    fix x y assume "x \<in> set (remove1 a merged)" "y \<in> set (remove1 a merged)"
      "ann_start x \<noteq> ann_start y"
    with sub have "x \<in> set merged" "y \<in> set merged" "ann_start x \<noteq> ann_start y" by auto
    with inv show "separate x y" unfolding merge_inv_def by blast
  qed
  have p: "\<exists>x\<in>set (overlap_handler c a text @ queue). proper x"
    using pr by auto
  show ?thesis
    unfolding merge_inv_def using q m d s p by blast
qed

lemma resolve_queue_merge_inv:
  assumes "resolve_queue text queue merged = Some r"
  shows "merge_inv text queue merged \<longrightarrow> merge_inv text [] r"
proof (rule resolve_queue.raw_induct
         [where P = "\<lambda>t q m y. merge_inv t q m \<longrightarrow> merge_inv t [] y", OF _ assms],
       goal_cases)
  case (1 rq doc q m y)
  show ?case
  proof
    assume inv: "merge_inv doc q m"
    show "merge_inv doc [] y"
    proof (cases q)
      case Nil
      with 1(2) inv show ?thesis by simp
    next
      case (Cons c rest)
      show ?thesis
      proof (cases "proper c")
        case False
        with 1(2) Cons have "rq doc rest m = Some y" by (simp add: proper_def)
        from 1(1) [OF this] merge_inv_drop [OF inv [unfolded Cons] False] show ?thesis by simp
      next
        case True
        show ?thesis
        proof (cases "scan_merged c (sort_by_start m)")
          case Append_current
          with 1(2) Cons True have "rq doc rest (m @ [c]) = Some y" by (simp add: proper_def)
          from 1(1) [OF this] merge_inv_append [OF inv [unfolded Cons] True Append_current]
          show ?thesis by simp
        next
          case (Split_with a)
          with 1(2) Cons True
          have "rq doc (overlap_handler c a doc @ rest) (remove1 a m) = Some y"
            by (simp add: proper_def)
          from 1(1) [OF this] merge_inv_split [OF inv [unfolded Cons] True Split_with]
          show ?thesis by simp
        qed
      qed
    qed
  qed
qed


lemma chain_of_sorted:
  "sorted (map ann_start xs) \<Longrightarrow> distinct (map ann_start xs) \<Longrightarrow>
   \<forall>a\<in>set xs. ann_start a < ann_end a \<Longrightarrow>
   \<forall>a\<in>set xs. \<forall>b\<in>set xs. ann_start a \<noteq> ann_start b \<longrightarrow> separate a b \<Longrightarrow>
   sorted_wrt (\<lambda>a b. ann_end a \<le> ann_start b) xs"
proof (induction xs)
  case Nil
  show ?case by simp
next
  case (Cons a xs)
  have "ann_end a \<le> ann_start b" if b: "b \<in> set xs" for b
  proof -
    from Cons.prems(1) b have le: "ann_start a \<le> ann_start b" by auto
    from Cons.prems(2) b have ne: "ann_start a \<noteq> ann_start b" by auto
    with Cons.prems(4) b have "separate a b" by simp
    moreover from Cons.prems(3) b have "ann_start b < ann_end b" by simp
    ultimately show ?thesis using le unfolding separate_def by linarith
  qed
  moreover have "sorted_wrt (\<lambda>a b. ann_end a \<le> ann_start b) xs"
    using Cons by simp
  ultimately show ?case by simp
qed

lemma tiling_append:
  "tiling text lo ys mid \<Longrightarrow> tiling text mid zs hi \<Longrightarrow> tiling text lo (ys @ zs) hi"
  by (induction ys arbitrary: lo) auto

lemma tiling_le: "tiling text lo ys hi \<Longrightarrow> lo \<le> hi"
proof (induction ys arbitrary: lo)
  case Nil
  then show ?case by simp
next
  case (Cons a ys)
  then have "lo < ann_end a" "tiling text (ann_end a) ys hi" by auto
  with Cons.IH [of "ann_end a"] show ?case by simp
qed

lemma add_none_labels_tiling:
  "sorted_wrt (\<lambda>a b. ann_end a \<le> ann_start b) xs \<Longrightarrow>
   \<forall>a\<in>set xs. ann_start a < ann_end a \<and>
               ann_text a = py_slice text (ann_start a) (ann_end a) \<Longrightarrow>
   \<forall>a\<in>set xs. cur \<le> ann_start a \<Longrightarrow>
   tiling text cur (add_none_labels none_value text cur xs)
     (if xs = [] then cur else ann_end (last xs))"
proof (induction xs arbitrary: cur)
  case Nil
  show ?case by simp
next
  case (Cons a xs)
  have rest: "tiling text (ann_end a) (add_none_labels none_value text (ann_end a) xs)
                (if xs = [] then ann_end a else ann_end (last xs))"
    using Cons.prems by (intro Cons.IH) auto
  from Cons.prems have a: "ann_start a < ann_end a"
      "ann_text a = py_slice text (ann_start a) (ann_end a)" "cur \<le> ann_start a"
    by auto
  show ?case
  proof (cases "ann_start a > cur")
    case True
    with a rest show ?thesis by auto
  next
    case False
    with a(3) have "ann_start a = cur" by simp
    with a rest show ?thesis by auto
  qed
qed

lemma fold_max_tiling:
  "tiling text lo ys hi \<Longrightarrow> m \<le> lo \<Longrightarrow>
   fold max (map ann_end ys) m = (if ys = [] then m else hi)"
proof (induction ys arbitrary: lo m)
  case Nil
  show ?case by simp
next
  case (Cons a ys)
  from Cons.prems have a: "lo < ann_end a" and rest: "tiling text (ann_end a) ys hi"
    by auto
  with Cons.prems(2) have "max (ann_end a) m = ann_end a" by simp
  moreover from Cons.IH [OF rest, of "ann_end a"]
  have "fold max (map ann_end ys) (ann_end a) = (if ys = [] then ann_end a else hi)" by simp
  moreover from rest have "ys = [] \<Longrightarrow> ann_end a = hi" by simp
  ultimately show ?case by auto
qed

lemma py_max_tiling:
  "tiling text lo ys hi \<Longrightarrow> ys \<noteq> [] \<Longrightarrow> py_max (map ann_end ys) = Inr hi"
proof (cases ys)
  case Nil
  assume "ys \<noteq> []" with Nil show ?thesis by simp
next
  case (Cons a rest)
  assume "tiling text lo ys hi"
  with Cons have t: "tiling text (ann_end a) rest hi" by simp
  from fold_max_tiling [OF t, of "ann_end a"] t
  show ?thesis by (auto simp: py_max_def Cons)
qed

lemma add_rest_span_tiling:
  assumes "tiling text lo ys hi" "ys \<noteq> []" "hi \<le> int (length text)"
  shows "\<exists>zs. (add_rest_span none_value text ys :: 'e error + _) = Inr zs \<and>
              tiling text lo zs (int (length text))"
proof -
  have pm: "(py_max (map ann_end ys) :: 'e error + int) = Inr hi"
    by (rule py_max_tiling [OF assms(1,2)])
  show ?thesis
  proof (cases "hi = int (length text)")
    case True
    with assms(1) show ?thesis
      by (simp add: add_rest_span_def pm)
  next
    case False
    with assms(3) have lt: "hi < int (length text)" by simp
    have "tiling text hi
            [\<lparr>ann_start = hi, ann_end = int (length text), ann_label = [none_value],
              ann_text = py_slice text hi (int (length text))\<rparr>] (int (length text))"
      using lt by simp
    from tiling_append [OF assms(1) this] False
    show ?thesis by (simp add: add_rest_span_def pm)
  qed
qed

lemma py_slice_concat:
  "0 \<le> lo \<Longrightarrow> lo \<le> mid \<Longrightarrow> mid \<le> hi \<Longrightarrow> hi \<le> int (length xs) \<Longrightarrow>
   py_slice xs lo mid @ py_slice xs mid hi = py_slice xs lo hi"
proof -
  assume a: "0 \<le> lo" "lo \<le> mid" "mid \<le> hi" "hi \<le> int (length xs)"
  define l m h where "l = nat lo" and "m = nat mid" and "h = nat hi"
  have b: "l \<le> m" "m \<le> h" "h \<le> length xs" using a by (auto simp: l_def m_def h_def)
  have s: "py_slice xs lo mid = take (m - l) (drop l xs)"
      "py_slice xs mid hi = take (h - m) (drop m xs)"
      "py_slice xs lo hi = take (h - l) (drop l xs)"
    using a by (auto simp: py_slice_def l_def m_def h_def Let_def nat_diff_distrib min_def)
  have "take (h - l) (drop l xs) = take (m - l) (drop l xs) @ take (h - m) (drop m xs)"
  proof -
    have "h - l = (m - l) + (h - m)" using b by simp
    then have "take (h - l) (drop l xs)
                 = take (m - l) (drop l xs) @ take (h - m) (drop (m - l) (drop l xs))"
      by (simp only: take_add)
    also have "drop (m - l) (drop l xs) = drop m xs" using b by simp
    finally show ?thesis .
  qed
  then show ?thesis by (simp add: s)
qed

lemma tiling_concat:
  "tiling text lo ys hi \<Longrightarrow> 0 \<le> lo \<Longrightarrow> hi \<le> int (length text) \<Longrightarrow>
   concat (map ann_text ys) = py_slice text lo hi"
proof (induction ys arbitrary: lo)
  case Nil
  then show ?case by (simp add: py_slice_def Let_def)
next
  case (Cons a ys)
  from Cons.prems have a: "ann_start a = lo" "lo < ann_end a"
      "ann_text a = py_slice text lo (ann_end a)" and rest: "tiling text (ann_end a) ys hi"
    by auto
  from tiling_le [OF rest] have le: "ann_end a \<le> hi" .
  from Cons.IH [OF rest] a(2) Cons.prems(2,3)
  have "concat (map ann_text ys) = py_slice text (ann_end a) hi" by simp
  with a(3) py_slice_concat [of lo "ann_end a" hi "text"] a(2) le Cons.prems(2,3)
  show ?case by simp
qed

lemma py_slice_all: "py_slice xs 0 (int (length xs)) = xs"
  by (simp add: py_slice_def Let_def)

lemma tiling_chain:
  "tiling text lo ys hi \<Longrightarrow>
   sorted_wrt (\<lambda>a b. ann_end a \<le> ann_start b) ys \<and> (\<forall>a\<in>set ys. lo \<le> ann_start a \<and> ann_start a < ann_end a)"
proof (induction ys arbitrary: lo)
  case Nil
  show ?case by simp
next
  case (Cons a ys)
  from Cons.prems have a: "ann_start a = lo" "lo < ann_end a"
    and rest: "tiling text (ann_end a) ys hi" by auto
  from Cons.IH [OF rest] a show ?case by auto
qed


lemma with_label_fields [simp]:
  "ann_start (with_label f a) = ann_start a"
  "ann_end (with_label f a) = ann_end a"
  "ann_text (with_label f a) = ann_text a"
  by (simp_all add: with_label_def)

lemma well_placed_with_label [simp]: "well_placed text (with_label f a) = well_placed text a"
  by (simp add: well_placed_def)

lemma separate_with_label [simp]:
  "separate (with_label f a) (with_label g b) = separate a b"
  by (simp add: separate_def)

lemma add_none_labels_Nil [simp]:
  "add_none_labels none_value text cur xs = [] \<longleftrightarrow> xs = []"
  by (cases xs) auto

lemma distinct_map_sort_key:
  "distinct (map f (sort_key g xs)) = distinct (map f xs)"
  by (simp add: distinct_map)

text \<open>
  The partition invariant for a document with at least one proper span, all spans being
  well placed: the conversion returns, and the annotations it builds tile the whole
  text. Hence their texts concatenated give the raw text, every span is proper, and
  every span ends at or before the start of each span after it. The substrings and
  the label tuples returned are the texts and the labels of these annotations, so the
  two lists have the same length.
\<close>

lemma document_partition:
  assumes wp: "\<forall>a\<in>set label_seq. well_placed text a"
    and some: "\<exists>a\<in>set label_seq. proper a"
  shows "\<exists>anns. document_annotations list_of none_value text label_seq = Some (Inr anns)
           \<and> tiling text 0 anns (int (length text))
           \<and> concat (map ann_text anns) = text
           \<and> sorted_wrt (\<lambda>a b. ann_end a \<le> ann_start b) anns
           \<and> (\<forall>a\<in>set anns. ann_start a < ann_end a)
           \<and> convert_document list_of True none_value text label_seq
               = Some (Inr (map ann_text anns, map ann_label anns))"
proof -
  let ?queue = "map (with_label (\<lambda>l. {l})) (sort_key ann_start (sort_key ann_start label_seq))"
  have inv0: "merge_inv text ?queue []"
    using wp some by (auto simp: merge_inv_def)
  have "\<forall>a\<in>set ?queue. ann_start a \<le> ann_end a"
    using wp by (auto simp: well_placed_def)
  from resolve_queue_terminates [OF this, of "[]" "text"] obtain r where
    r: "resolve_queue text ?queue [] = Some r" by auto
  from resolve_queue_merge_inv [OF r] inv0 have inv: "merge_inv text [] r" by simp
  define xs where "xs = sort_by_start (map (with_label list_of) r)"
  have set_xs: "set xs = with_label list_of ` set r"
    by (simp add: xs_def)
  have ne: "xs \<noteq> []"
    using inv set_xs by (auto simp: merge_inv_def)
  have xs_wp: "\<forall>a\<in>set xs. well_placed text a \<and> ann_start a < ann_end a"
    using inv unfolding set_xs by (auto simp: merge_inv_def proper_def well_placed_def)
  have xs_sorted: "sorted (map ann_start xs)"
    by (simp add: xs_def sort_by_start_def)
  have starts: "map ann_start (map (with_label list_of) r) = map ann_start r"
    by simp
  have xs_distinct: "distinct (map ann_start xs)"
    unfolding xs_def sort_by_start_def distinct_map_sort_key starts
    using inv by (simp add: merge_inv_def)
  have xs_sep: "\<forall>a\<in>set xs. \<forall>b\<in>set xs. ann_start a \<noteq> ann_start b \<longrightarrow> separate a b"
    using inv unfolding set_xs by (auto simp: merge_inv_def)
  have chain: "sorted_wrt (\<lambda>a b. ann_end a \<le> ann_start b) xs"
    using xs_wp by (intro chain_of_sorted [OF xs_sorted xs_distinct _ xs_sep]) simp
  have "tiling text 0 (add_none_labels none_value text 0 xs)
          (if xs = [] then 0 else ann_end (last xs))"
    using xs_wp by (intro add_none_labels_tiling [OF chain]) (auto simp: well_placed_def)
  with ne have t1: "tiling text 0 (add_none_labels none_value text 0 xs) (ann_end (last xs))"
    by simp
  have "last xs \<in> set xs" using ne by simp
  with xs_wp have hi: "ann_end (last xs) \<le> int (length text)"
    by (auto simp: well_placed_def)
  have ne2: "add_none_labels none_value text 0 xs \<noteq> []" using ne by simp
  from add_rest_span_tiling [OF t1 ne2 hi, of none_value] obtain zs where
    zs: "(add_rest_span none_value text (add_none_labels none_value text 0 xs)
            :: 'a list annotation error + _) = Inr zs"
      "tiling text 0 zs (int (length text))"
    by blast
  have doc: "document_annotations list_of none_value text label_seq = Some (Inr zs)"
    by (simp add: document_annotations_def Let_def r xs_def [symmetric] zs(1))
  from tiling_concat [OF zs(2)] have cat: "concat (map ann_text zs) = text"
    by (simp add: py_slice_all)
  have conv: "convert_document list_of True none_value text label_seq
                = Some (Inr (map ann_text zs, map ann_label zs))"
    by (simp add: convert_document_def doc)
  from tiling_chain [OF zs(2)] doc zs(2) cat conv show ?thesis by auto
qed

text \<open>
  Claim C1 (the code departs from it). The partition invariant holds for the documents
  of the lemma above, and fails for a document without a proper span. At inference
  time \<open>labels\<close> is \<open>None\<close> and every document gets the empty annotation list; the
  call then raises \<open>ValueError\<close> and returns no substrings, where the partition of
  the text \<open>abc\<close> would be the single none-labelled substring \<open>abc\<close>.
\<close>

theorem inference_placeholder_raises:
  "indico_to_finetune_sequence sorted_list_of_set [''abc'']
     (None :: string annotation list list option) True ''O'' = Some (Inl ValueError)
   \<and> indico_to_finetune_sequence sorted_list_of_set [''abc'']
     (Some [[] :: string annotation list]) True ''O'' = Some (Inl ValueError)"
  by code_simp

end
